theory Spec2Isabelle
  imports Complex_Main "HOL-Library.AList"
begin

section \<open>The cube floor renderer: data model\<close>

text \<open>
  The development embeds the class \<open>CubeFloorRenderer\<close>: a registry of floor cubes
  keyed by grid coordinate, a set of excluded coordinate keys, and one group of meshes per
  scene. All of its state is static, so every operation takes the state and returns the
  new one. Console output is not part of the state and is left out, and with it the three
  counters that \<open>renderAllCubes\<close> keeps only to print them.

  The registry reads a grid coordinate only to print it into a key. A registered coordinate
  is the integer it denotes, modelled as \<open>int\<close>, and the key is its decimal text, which
  is how a template literal prints an integer below \<open>10^21\<close> in absolute value. The two
  static generators, \<open>getAreaCoordinates\<close> and \<open>getPathCoordinates\<close>, compute with the
  numbers themselves: they are embedded over double-precision numbers, with their rounding,
  their infinities and \<open>NaN\<close>.
\<close>

record CubePosition =
  pos_x :: int
  pos_y :: int

datatype cube_kind = Room | Hallway | Overlap

text \<open>The argument type \<open>'room' | 'hallway'\<close> of \<open>registerCubes\<close>.\<close>

datatype register_kind = RegRoom | RegHallway

fun kind_of :: "register_kind \<Rightarrow> cube_kind" where
  "kind_of RegRoom = Room"
| "kind_of RegHallway = Hallway"

record CubeInfo =
  position :: CubePosition
  color :: int
  type :: cube_kind

text \<open>
  The tags of \<open>CubeType\<close> that this class passes to the texture manager. The type itself
  is declared with the texture manager.
\<close>

datatype CubeType = hallway_floor | room_floor

record CubeFloorOptions =
  cubeSize :: "real option"
  floorColor :: "int option"
  yOffset :: "real option"

subsection \<open>JavaScript numbers\<close>

text \<open>
  A number is an IEEE 754 double: a finite value, one of the two infinities, or \<open>NaN\<close>.
  A finite double is modelled by the real number it denotes. The two zeros are one value
  here: they are equal under every comparison, they print the same key, and none of the
  functions embedded below divides by a zero.
\<close>

datatype number = Finite real | PosInfinity | NegInfinity | NaN

text \<open>
  An arithmetic operation returns the double nearest to the exact result, a tie going to
  the neighbour with the even significand. \<open>to_double\<close> is that rounding. A real \<open>x\<close> other
  than zero lies in the binade of \<open>exponent x\<close>, which is never below \<open>-1022\<close>: the
  subnormal doubles are spaced like the smallest normal ones. In that binade the doubles are
  the multiples of \<open>2 powi (exponent x - 52)\<close>. A rounded magnitude of \<open>2 ^ 1024\<close> or more
  is an infinity.
\<close>

definition round_even :: "real \<Rightarrow> int" where
  "round_even q =
     (if q - of_int \<lfloor>q\<rfloor> < 1 / 2 then \<lfloor>q\<rfloor>
      else if 1 / 2 < q - of_int \<lfloor>q\<rfloor> then \<lfloor>q\<rfloor> + 1
      else if even \<lfloor>q\<rfloor> then \<lfloor>q\<rfloor> else \<lfloor>q\<rfloor> + 1)"

definition exponent :: "real \<Rightarrow> int" where
  "exponent x = max \<lfloor>log 2 \<bar>x\<bar>\<rfloor> (- 1022)"

definition to_double :: "real \<Rightarrow> number" where
  "to_double x =
     (if x = 0 then Finite 0
      else
        let ulp = 2 powi (exponent x - 52);
            y = of_int (round_even (x / ulp)) * ulp
        in if 2 ^ 1024 \<le> \<bar>y\<bar> then (if 0 < x then PosInfinity else NegInfinity) else Finite y)"

text \<open>
  The operators \<open>-x\<close>, \<open>x + y\<close>, \<open>x - y\<close>, \<open>x * y\<close> and \<open>x / y\<close>. An operation with a
  \<open>NaN\<close> operand is \<open>NaN\<close>, and so are the difference of equal infinities, the product of
  zero and an infinity, and the quotients of two zeros and of two infinities. The increment
  \<open>x++\<close> is \<open>js_add x (Finite 1)\<close>.
\<close>

fun js_neg :: "number \<Rightarrow> number" where
  "js_neg (Finite a) = Finite (- a)"
| "js_neg PosInfinity = NegInfinity"
| "js_neg NegInfinity = PosInfinity"
| "js_neg NaN = NaN"

fun js_add :: "number \<Rightarrow> number \<Rightarrow> number" where
  "js_add (Finite a) (Finite b) = to_double (a + b)"
| "js_add NaN _ = NaN"
| "js_add _ NaN = NaN"
| "js_add PosInfinity NegInfinity = NaN"
| "js_add NegInfinity PosInfinity = NaN"
| "js_add PosInfinity _ = PosInfinity"
| "js_add _ PosInfinity = PosInfinity"
| "js_add NegInfinity _ = NegInfinity"
| "js_add _ NegInfinity = NegInfinity"

definition js_sub :: "number \<Rightarrow> number \<Rightarrow> number" where
  "js_sub a b = js_add a (js_neg b)"

text \<open>The infinity that is positive when the condition holds.\<close>

fun signed_infinity :: "bool \<Rightarrow> number" where
  "signed_infinity True = PosInfinity"
| "signed_infinity False = NegInfinity"

fun js_mul :: "number \<Rightarrow> number \<Rightarrow> number" where
  "js_mul (Finite a) (Finite b) = to_double (a * b)"
| "js_mul NaN _ = NaN"
| "js_mul _ NaN = NaN"
| "js_mul (Finite a) PosInfinity = (if a = 0 then NaN else signed_infinity (0 < a))"
| "js_mul (Finite a) NegInfinity = (if a = 0 then NaN else signed_infinity (a < 0))"
| "js_mul PosInfinity (Finite b) = (if b = 0 then NaN else signed_infinity (0 < b))"
| "js_mul NegInfinity (Finite b) = (if b = 0 then NaN else signed_infinity (b < 0))"
| "js_mul PosInfinity PosInfinity = PosInfinity"
| "js_mul PosInfinity NegInfinity = NegInfinity"
| "js_mul NegInfinity PosInfinity = NegInfinity"
| "js_mul NegInfinity NegInfinity = PosInfinity"

text \<open>
  A zero divisor is taken to be the positive zero; no division of the functions below
  meets one.
\<close>

fun js_div :: "number \<Rightarrow> number \<Rightarrow> number" where
  "js_div (Finite a) (Finite b) =
     (if b = 0 then (if a = 0 then NaN else signed_infinity (0 < a)) else to_double (a / b))"
| "js_div NaN _ = NaN"
| "js_div _ NaN = NaN"
| "js_div (Finite a) _ = Finite 0"
| "js_div PosInfinity (Finite b) = signed_infinity (0 \<le> b)"
| "js_div NegInfinity (Finite b) = signed_infinity (b < 0)"
| "js_div _ _ = NaN"

text \<open>
  \<open>Math.sqrt\<close> is the correctly rounded square root of IEEE 754. \<open>Math.ceil\<close>,
  \<open>Math.floor\<close> and \<open>Math.round\<close> are exact: the integer they name is a double whenever
  their argument is one. \<open>Math.round\<close> rounds a tie towards positive infinity.
\<close>

fun js_sqrt :: "number \<Rightarrow> number" where
  "js_sqrt (Finite a) = (if a < 0 then NaN else to_double (sqrt a))"
| "js_sqrt PosInfinity = PosInfinity"
| "js_sqrt _ = NaN"

fun js_ceil :: "number \<Rightarrow> number" where
  "js_ceil (Finite a) = Finite (of_int \<lceil>a\<rceil>)"
| "js_ceil v = v"

fun js_floor :: "number \<Rightarrow> number" where
  "js_floor (Finite a) = Finite (of_int \<lfloor>a\<rfloor>)"
| "js_floor v = v"

fun js_round :: "number \<Rightarrow> number" where
  "js_round (Finite a) = Finite (of_int \<lfloor>a + 1 / 2\<rfloor>)"
| "js_round v = v"

text \<open>
  The comparisons \<open>x < y\<close>, \<open>x <= y\<close> and \<open>x === y\<close>: every comparison with \<open>NaN\<close> is
  false.
\<close>

fun js_lt :: "number \<Rightarrow> number \<Rightarrow> bool" where
  "js_lt (Finite a) (Finite b) = (a < b)"
| "js_lt (Finite a) PosInfinity = True"
| "js_lt NegInfinity (Finite b) = True"
| "js_lt NegInfinity PosInfinity = True"
| "js_lt _ _ = False"

fun js_le :: "number \<Rightarrow> number \<Rightarrow> bool" where
  "js_le (Finite a) (Finite b) = (a \<le> b)"
| "js_le NaN _ = False"
| "js_le _ NaN = False"
| "js_le _ PosInfinity = True"
| "js_le NegInfinity _ = True"
| "js_le _ _ = False"

fun js_eq :: "number \<Rightarrow> number \<Rightarrow> bool" where
  "js_eq (Finite a) (Finite b) = (a = b)"
| "js_eq PosInfinity PosInfinity = True"
| "js_eq NegInfinity NegInfinity = True"
| "js_eq _ _ = False"

subsection \<open>Arrays of points\<close>

text \<open>
  An array is the list of its elements. It holds at most \<open>2^32 - 1\<close> of them: \<open>push\<close> on
  a full array raises a \<open>RangeError\<close>.
\<close>

datatype error = RangeError

definition push :: "'a list \<Rightarrow> 'a \<Rightarrow> error + 'a list" where
  "push arr v = (if length arr < 4294967295 then Inr (arr @ [v]) else Inl RangeError)"

text \<open>
  The points that the two generators return: objects \<open>{x, y}\<close> whose fields are the
  numbers the generator has computed, integers or not.
\<close>

record Point =
  point_x :: number
  point_y :: number

subsection \<open>Numbers as text\<close>

text \<open>
  A template literal turns an integer below \<open>10^21\<close> in absolute value into its decimal
  text: the digits, most significant first, after a minus sign when the number is negative.
  (A larger number prints in exponent form, which is not modelled.)
\<close>

fun digits_of :: "nat \<Rightarrow> string" where
  "digits_of n =
     (if n < 10 then [''0123456789'' ! n]
      else digits_of (n div 10) @ [''0123456789'' ! (n mod 10)])"

declare digits_of.simps [simp del]

definition number_text :: "int \<Rightarrow> string" where
  "number_text n = (if n < 0 then CHR ''-'' # digits_of (nat (- n)) else digits_of (nat n))"

definition getCubeKey :: "int \<Rightarrow> int \<Rightarrow> string" where
  "getCubeKey x y = number_text x @ '','' @ number_text y"

definition key_of :: "CubePosition \<Rightarrow> string" where
  "key_of coord = getCubeKey (pos_x coord) (pos_y coord)"

fun kind_text :: "cube_kind \<Rightarrow> string" where
  "kind_text Room = ''room''"
| "kind_text Hallway = ''hallway''"
| "kind_text Overlap = ''overlap''"

subsection \<open>Maps and sets that remember insertion order\<close>

text \<open>
  A JavaScript \<open>Map\<close> iterates in the order in which its keys were first inserted, and
  setting a key that is present keeps its place: it is an association list with
  \<open>map_of\<close> for \<open>get\<close>, \<open>AList.update\<close> for \<open>set\<close> and \<open>AList.delete\<close> for
  \<open>delete\<close>. A \<open>Set\<close> is the list of its elements in insertion order.
\<close>

definition set_add :: "'a \<Rightarrow> 'a list \<Rightarrow> 'a list" where
  "set_add k ks = (if k \<in> set ks then ks else ks @ [k])"

subsection \<open>The scene graph\<close>

text \<open>
  Scenes, groups, geometries and materials are objects of the rendering library; the
  renderer holds references to them. An object is a natural number, and the store maps
  each object to its current contents. \<open>next_object\<close> is the next unused reference.
  A mesh is referred to from one group only and is kept in that group's list of children.
  The arithmetic on mesh positions is that of the reals.
\<close>

record BoxGeometry =
  box_width :: real
  box_height :: real
  box_depth :: real
  geometry_disposed :: bool

record Material =
  texture :: CubeType
  material_disposed :: bool

record Mesh =
  mesh_name :: string
  geometry :: nat
  material :: nat
  mesh_position :: "real \<times> real \<times> real"
  castShadow :: bool
  receiveShadow :: bool

record Group =
  group_name :: string
  children :: "Mesh list"

record renderer =
  cubeRegistry :: "(string \<times> CubeInfo) list"
  sceneGroups :: "(nat \<times> nat) list"
  excludedCoordinates :: "string list"
  scene_children :: "nat \<Rightarrow> nat list"
  groups :: "nat \<Rightarrow> Group"
  geometries :: "nat \<Rightarrow> BoxGeometry"
  materials :: "nat \<Rightarrow> Material"
  next_object :: nat

text \<open>\<open>new THREE.Group()\<close>: a group without a name and without children.\<close>

definition new_Group :: "renderer \<Rightarrow> nat \<times> renderer" where
  "new_Group s =
     (next_object s,
      s\<lparr>groups := (groups s)(next_object s := \<lparr>group_name = [], children = []\<rparr>),
        next_object := Suc (next_object s)\<rparr>)"

definition new_BoxGeometry :: "real \<Rightarrow> real \<Rightarrow> real \<Rightarrow> renderer \<Rightarrow> nat \<times> renderer" where
  "new_BoxGeometry w h d s =
     (next_object s,
      s\<lparr>geometries := (geometries s)(next_object s :=
          \<lparr>box_width = w, box_height = h, box_depth = d, geometry_disposed = False\<rparr>),
        next_object := Suc (next_object s)\<rparr>)"

text \<open>
  Modelled from the spec: \<open>TextureManager.createMaterialWithTexture\<close> is defined outside
  the class. The paint descriptor provider maps a tag to a paint descriptor; here it
  returns a new material that carries the tag and has not been disposed.
\<close>

definition createMaterialWithTexture :: "CubeType \<Rightarrow> renderer \<Rightarrow> nat \<times> renderer" where
  "createMaterialWithTexture cubeType s =
     (next_object s,
      s\<lparr>materials := (materials s)(next_object s :=
          \<lparr>texture = cubeType, material_disposed = False\<rparr>),
        next_object := Suc (next_object s)\<rparr>)"

text \<open>\<open>scene.add(object)\<close> for an object that has no parent yet.\<close>

definition scene_add :: "nat \<Rightarrow> nat \<Rightarrow> renderer \<Rightarrow> renderer" where
  "scene_add scene object s =
     s\<lparr>scene_children := (scene_children s)(scene := scene_children s scene @ [object])\<rparr>"

text \<open>\<open>scene.remove(object)\<close>: the object leaves the children, if it is among them.\<close>

definition scene_remove :: "nat \<Rightarrow> nat \<Rightarrow> renderer \<Rightarrow> renderer" where
  "scene_remove scene object s =
     s\<lparr>scene_children := (scene_children s)(scene := remove1 object (scene_children s scene))\<rparr>"

definition group_add :: "nat \<Rightarrow> Mesh \<Rightarrow> renderer \<Rightarrow> renderer" where
  "group_add g cube s =
     s\<lparr>groups := (groups s)(g := (groups s g)\<lparr>children := children (groups s g) @ [cube]\<rparr>)\<rparr>"

definition group_clear :: "nat \<Rightarrow> renderer \<Rightarrow> renderer" where
  "group_clear g s = s\<lparr>groups := (groups s)(g := (groups s g)\<lparr>children := []\<rparr>)\<rparr>"

definition set_group_name :: "nat \<Rightarrow> string \<Rightarrow> renderer \<Rightarrow> renderer" where
  "set_group_name g n s = s\<lparr>groups := (groups s)(g := (groups s g)\<lparr>group_name := n\<rparr>)\<rparr>"

definition geometry_dispose :: "nat \<Rightarrow> renderer \<Rightarrow> renderer" where
  "geometry_dispose g s =
     s\<lparr>geometries := (geometries s)(g := (geometries s g)\<lparr>geometry_disposed := True\<rparr>)\<rparr>"

definition material_dispose :: "nat \<Rightarrow> renderer \<Rightarrow> renderer" where
  "material_dispose m s =
     s\<lparr>materials := (materials s)(m := (materials s m)\<lparr>material_disposed := True\<rparr>)\<rparr>"

section \<open>The operations of the class\<close>

definition clearRegistry :: "renderer \<Rightarrow> renderer" where
  "clearRegistry s = s\<lparr>cubeRegistry := [], excludedCoordinates := []\<rparr>"

definition setExcludedCoordinates :: "CubePosition list \<Rightarrow> renderer \<Rightarrow> renderer" where
  "setExcludedCoordinates coordinates s =
     fold (\<lambda>coord s'.
             let key = getCubeKey (pos_x coord) (pos_y coord)
             in s'\<lparr>excludedCoordinates := set_add key (excludedCoordinates s')\<rparr>)
          coordinates (s\<lparr>excludedCoordinates := []\<rparr>)"

definition unregisterCoordinates :: "CubePosition list \<Rightarrow> renderer \<Rightarrow> renderer" where
  "unregisterCoordinates coordinates s =
     fold (\<lambda>coord s'.
             let key = getCubeKey (pos_x coord) (pos_y coord)
             in s'\<lparr>cubeRegistry := AList.delete key (cubeRegistry s')\<rparr>)
          coordinates s"

definition getAllCoordinates :: "renderer \<Rightarrow> CubePosition list" where
  "getAllCoordinates s =
     fold (\<lambda>(key, cubeInfo) coordinates. coordinates @ [position cubeInfo]) (cubeRegistry s) []"

text \<open>The body of the loop of \<open>registerCubes\<close>, for one coordinate.\<close>

definition register_coord :: "int \<Rightarrow> register_kind \<Rightarrow> CubePosition \<Rightarrow> renderer \<Rightarrow> renderer" where
  "register_coord c t coord s =
     (let key = getCubeKey (pos_x coord) (pos_y coord) in
      if key \<in> set (excludedCoordinates s) then s
      else
        (case map_of (cubeRegistry s) key of
           Some existing \<Rightarrow>
             s\<lparr>cubeRegistry := AList.update key
                 \<lparr>position = coord, color = 0x800080, type = Overlap\<rparr> (cubeRegistry s)\<rparr>
         | None \<Rightarrow>
             s\<lparr>cubeRegistry := AList.update key
                 \<lparr>position = coord, color = c, type = kind_of t\<rparr> (cubeRegistry s)\<rparr>))"

definition registerCubes :: "CubePosition list \<Rightarrow> int \<Rightarrow> register_kind \<Rightarrow> renderer \<Rightarrow> renderer" where
  "registerCubes coordinates c t s = fold (register_coord c t) coordinates s"

text \<open>The body of the loop of \<open>renderAllCubes\<close>, for one entry of the registry.\<close>

definition render_cube :: "real \<Rightarrow> real \<Rightarrow> nat \<Rightarrow> nat \<Rightarrow> string \<times> CubeInfo \<Rightarrow> renderer \<Rightarrow> renderer" where
  "render_cube cube_size y_offset geo sceneGroup entry s =
     (case entry of (key, cubeInfo) \<Rightarrow>
        if key \<in> set (excludedCoordinates s) then s
        else
          let cubeType =
                (if type cubeInfo = Overlap then hallway_floor
                 else if type cubeInfo = Hallway then hallway_floor
                 else room_floor);
              (mat, s1) = createMaterialWithTexture cubeType s;
              cubeWorldX = real_of_int (pos_x (position cubeInfo)) * cube_size;
              cubeWorldZ = real_of_int (pos_y (position cubeInfo)) * cube_size;
              cube = \<lparr>mesh_name = ''FloorCube_'' @ kind_text (type cubeInfo) @ ''_''
                         @ number_text (pos_x (position cubeInfo)) @ ''_''
                         @ number_text (pos_y (position cubeInfo)),
                      geometry = geo,
                      material = mat,
                      mesh_position = (cubeWorldX, y_offset + cube_size / 2, cubeWorldZ),
                      castShadow = True,
                      receiveShadow = True\<rparr>
          in group_add sceneGroup cube s1)"

text \<open>
  \<open>renderAllCubes\<close> returns the group of the scene and the new state. The default of
  \<open>cubeSize\<close> is \<open>CubeConfig.getCubeSize()\<close>, a constant of the configuration, taken as
  the parameter \<open>getCubeSize\<close>.
\<close>

definition renderAllCubes :: "real \<Rightarrow> nat \<Rightarrow> CubeFloorOptions \<Rightarrow> renderer \<Rightarrow> nat \<times> renderer" where
  "renderAllCubes getCubeSize scene options s =
     (let cube_size = (case cubeSize options of Some v \<Rightarrow> v | None \<Rightarrow> getCubeSize);
          y_offset = (case yOffset options of Some v \<Rightarrow> v | None \<Rightarrow> 0);
          (sceneGroup, s1) =
            (case map_of (sceneGroups s) scene of
               Some g \<Rightarrow> (g, s)
             | None \<Rightarrow>
                 let (g, s') = new_Group s;
                     s' = set_group_name g ''AllFloorCubes'' s';
                     s' = s'\<lparr>sceneGroups := AList.update scene g (sceneGroups s')\<rparr>
                 in (g, scene_add scene g s'));
          s2 = group_clear sceneGroup s1;
          (geo, s3) = new_BoxGeometry cube_size cube_size cube_size s2
      in (sceneGroup, fold (render_cube cube_size y_offset geo sceneGroup) (cubeRegistry s3) s3))"

text \<open>
  The two generators are loops over numbers, and a loop over numbers need not end. Their
  result is \<open>None\<close> when the call never returns, \<open>Some (Inl e)\<close> when it raises \<open>e\<close>, and
  \<open>Some (Inr coordinates)\<close> when it returns the array \<open>coordinates\<close>.

  The two loops of \<open>getAreaCoordinates\<close>; \<open>coordinates\<close> is the array being filled.
\<close>

partial_function (option) area_row ::
  "number \<Rightarrow> number \<Rightarrow> number \<Rightarrow> Point list \<Rightarrow> (error + Point list) option" where
  "area_row x y endY coordinates =
     (if js_le y endY then
        (case push coordinates \<lparr>point_x = x, point_y = y\<rparr> of
           Inl e \<Rightarrow> Some (Inl e)
         | Inr coordinates' \<Rightarrow> area_row x (js_add y (Finite 1)) endY coordinates')
      else Some (Inr coordinates))"

partial_function (option) area_loop ::
  "number \<Rightarrow> number \<Rightarrow> number \<Rightarrow> number \<Rightarrow> Point list \<Rightarrow> (error + Point list) option" where
  "area_loop x startY endX endY coordinates =
     (if js_le x endX then
        (case area_row x startY endY coordinates of
           None \<Rightarrow> None
         | Some (Inl e) \<Rightarrow> Some (Inl e)
         | Some (Inr coordinates') \<Rightarrow> area_loop (js_add x (Finite 1)) startY endX endY coordinates')
      else Some (Inr coordinates))"

definition getAreaCoordinates ::
  "number \<Rightarrow> number \<Rightarrow> number \<Rightarrow> number \<Rightarrow> (error + Point list) option" where
  "getAreaCoordinates startX startY endX endY = area_loop startX startY endX endY []"

text \<open>
  \<open>findIndex\<close> returns the index of the first element that satisfies the test, and \<open>-1\<close>
  when there is none. \<open>uniqueCoords\<close> is the filter at the end of \<open>getPathCoordinates\<close>: it
  keeps a point when \<open>findIndex\<close> finds the point first at the point's own index.
\<close>

fun findIndex :: "('a \<Rightarrow> bool) \<Rightarrow> 'a list \<Rightarrow> int" where
  "findIndex P [] = - 1"
| "findIndex P (c # arr) =
     (if P c then 0 else let i = findIndex P arr in if i = - 1 then - 1 else i + 1)"

definition uniqueCoords :: "Point list \<Rightarrow> Point list" where
  "uniqueCoords coordinates =
     map fst
       (filter (\<lambda>(coord, index).
                  findIndex (\<lambda>c. js_eq (point_x c) (point_x coord) \<and> js_eq (point_y c) (point_y coord))
                    coordinates = int index)
          (zip coordinates [0..<length coordinates]))"

text \<open>
  The two loops of \<open>getPathCoordinates\<close>: \<open>path_row\<close> is the loop over the offsets \<open>w\<close>
  of one step, \<open>path_loop\<close> the loop over the steps \<open>i\<close>.
\<close>

partial_function (option) path_row ::
  "number \<Rightarrow> number \<Rightarrow> number \<Rightarrow> number \<Rightarrow> number \<Rightarrow> number \<Rightarrow> Point list
     \<Rightarrow> (error + Point list) option" where
  "path_row centerX centerY perpX perpY width w coordinates =
     (if js_lt w width then
        let widthOffset = js_sub w (js_floor (js_div width (Finite 2)));
            finalX = js_round (js_add centerX (js_mul perpX widthOffset));
            finalY = js_round (js_add centerY (js_mul perpY widthOffset))
        in case push coordinates \<lparr>point_x = finalX, point_y = finalY\<rparr> of
             Inl e \<Rightarrow> Some (Inl e)
           | Inr coordinates' \<Rightarrow>
               path_row centerX centerY perpX perpY width (js_add w (Finite 1)) coordinates'
      else Some (Inr coordinates))"

partial_function (option) path_loop ::
  "number \<Rightarrow> number \<Rightarrow> number \<Rightarrow> number \<Rightarrow> number \<Rightarrow> number \<Rightarrow> number \<Rightarrow> number
     \<Rightarrow> number \<Rightarrow> number \<Rightarrow> Point list \<Rightarrow> (error + Point list) option" where
  "path_loop startX startY dirX dirY perpX perpY length' steps width i coordinates =
     (if js_lt i steps then
        let t = js_div i (js_sub steps (Finite 1));
            centerX = js_add startX (js_mul (js_mul dirX length') t);
            centerY = js_add startY (js_mul (js_mul dirY length') t)
        in case path_row centerX centerY perpX perpY width (Finite 0) coordinates of
             None \<Rightarrow> None
           | Some (Inl e) \<Rightarrow> Some (Inl e)
           | Some (Inr coordinates') \<Rightarrow>
               path_loop startX startY dirX dirY perpX perpY length' steps width
                 (js_add i (Finite 1)) coordinates'
      else Some (Inr coordinates))"

text \<open>The parameter \<open>width\<close> is \<open>1\<close> when the caller leaves it out.\<close>

definition default_width :: "number option \<Rightarrow> number" where
  "default_width width = (case width of None \<Rightarrow> Finite 1 | Some v \<Rightarrow> v)"

definition getPathCoordinates ::
  "number \<Rightarrow> number \<Rightarrow> number \<Rightarrow> number \<Rightarrow> number option \<Rightarrow> (error + Point list) option" where
  "getPathCoordinates startX startY endX endY width_arg =
     (let width = default_width width_arg;
          dx = js_sub endX startX;
          dy = js_sub endY startY;
          length' = js_sqrt (js_add (js_mul dx dx) (js_mul dy dy))
      in if js_eq length' (Finite 0) then
           Some (Inr [\<lparr>point_x = js_round startX, point_y = js_round startY\<rparr>])
         else
           let dirX = js_div dx length';
               dirY = js_div dy length';
               perpX = js_neg dirY;
               perpY = dirX;
               steps = js_add (js_ceil length') (Finite 1)
           in case path_loop startX startY dirX dirY perpX perpY length' steps width (Finite 0) [] of
                None \<Rightarrow> None
              | Some (Inl e) \<Rightarrow> Some (Inl e)
              | Some (Inr coordinates) \<Rightarrow> Some (Inr (uniqueCoords coordinates)))"

text \<open>
  \<open>dispose\<close>: for each scene with a group, the group leaves the scene, and the traversal of
  the group disposes of the geometry and of the material of every mesh in it.
\<close>

definition dispose_mesh :: "Mesh \<Rightarrow> renderer \<Rightarrow> renderer" where
  "dispose_mesh child s = material_dispose (material child) (geometry_dispose (geometry child) s)"

definition dispose_group :: "nat \<times> nat \<Rightarrow> renderer \<Rightarrow> renderer" where
  "dispose_group entry s =
     (case entry of (scene, g) \<Rightarrow>
        let s1 = scene_remove scene g s
        in fold dispose_mesh (children (groups s1 g)) s1)"

definition dispose :: "renderer \<Rightarrow> renderer" where
  "dispose s =
     (let s1 = s\<lparr>cubeRegistry := []\<rparr>;
          s2 = s1\<lparr>excludedCoordinates := []\<rparr>;
          s3 = fold dispose_group (sceneGroups s2) s2
      in s3\<lparr>sceneGroups := []\<rparr>)"

text \<open>The state of the class when it is loaded, in a scene graph \<open>w\<close>.\<close>

definition initial :: "renderer \<Rightarrow> renderer" where
  "initial w = w\<lparr>cubeRegistry := [], sceneGroups := [], excludedCoordinates := []\<rparr>"

section \<open>Notions for the statements and the proofs\<close>

subsection \<open>Insertion order\<close>

text \<open>
  The order in which a \<open>Set\<close> that starts empty holds the elements added from a list:
  each element at its first occurrence.
\<close>

definition insertion_order :: "'a list \<Rightarrow> 'a list" where
  "insertion_order xs = fold set_add xs []"

text \<open>
  The filter at the end of \<open>getPathCoordinates\<close>, for elements of any type that are
  compared as a whole.
\<close>

definition firsts :: "'a list \<Rightarrow> 'a list" where
  "firsts arr =
     map fst (filter (\<lambda>(x, index). findIndex (\<lambda>c. c = x) arr = int index) (zip arr [0..<length arr]))"

subsection \<open>Rounding\<close>

text \<open>
  The spacing of the doubles around a real, and the multiple of it that \<open>to_double\<close>
  chooses before it looks for an overflow.
\<close>

definition ulp_of :: "real \<Rightarrow> real" where
  "ulp_of x = 2 powi (exponent x - 52)"

definition rounded :: "real \<Rightarrow> real" where
  "rounded x = of_int (round_even (x / ulp_of x)) * ulp_of x"

text \<open>A number that is finite and at most \<open>2 ^ k\<close> in absolute value.\<close>

definition below :: "nat \<Rightarrow> number \<Rightarrow> bool" where
  "below k v = (\<exists>a. v = Finite a \<and> \<bar>a\<bar> \<le> 2 ^ k)"

subsection \<open>Paths\<close>

text \<open>
  The value of \<open>length\<close> in \<open>getPathCoordinates\<close>, and the array \<open>coordinates\<close> as the two
  loops leave it, before the duplicates are removed; \<open>getPathCoordinates_generated\<close> shows
  that they are the values the function computes.
\<close>

definition path_length :: "number \<Rightarrow> number \<Rightarrow> number \<Rightarrow> number \<Rightarrow> number" where
  "path_length startX startY endX endY =
     (let dx = js_sub endX startX;
          dy = js_sub endY startY
      in js_sqrt (js_add (js_mul dx dx) (js_mul dy dy)))"

definition generated ::
  "number \<Rightarrow> number \<Rightarrow> number \<Rightarrow> number \<Rightarrow> number \<Rightarrow> (error + Point list) option" where
  "generated startX startY endX endY width =
     (let dx = js_sub endX startX;
          dy = js_sub endY startY;
          length' = path_length startX startY endX endY;
          dirX = js_div dx length';
          dirY = js_div dy length';
          steps = js_add (js_ceil length') (Finite 1)
      in path_loop startX startY dirX dirY (js_neg dirY) dirX length' steps width (Finite 0) [])"

text \<open>A point whose two coordinates are integers.\<close>

definition integer_point :: "Point \<Rightarrow> bool" where
  "integer_point p = (\<exists>m n :: int. p = \<lparr>point_x = Finite (of_int m), point_y = Finite (of_int n)\<rparr>)"

subsection \<open>The registry\<close>

text \<open>A record that has been turned into an overlap.\<close>

definition is_overlap :: "CubeInfo option \<Rightarrow> bool" where
  "is_overlap r = (\<exists>p. r = Some \<lparr>position = p, color = 0x800080, type = Overlap\<rparr>)"

text \<open>Every record of the registry is filed under the key of its own position.\<close>

definition keyed :: "renderer \<Rightarrow> bool" where
  "keyed s = (\<forall>(key, cubeInfo) \<in> set (cubeRegistry s). key = key_of (position cubeInfo))"

subsection \<open>Rendering\<close>

text \<open>
  The entries of the registry that are not excluded; what the group \<open>g\<close> shows, as the
  name of each mesh with the tag of its material; and what one entry is to be shown as.
\<close>

definition visible :: "renderer \<Rightarrow> (string \<times> CubeInfo) list \<Rightarrow> (string \<times> CubeInfo) list" where
  "visible s entries = filter (\<lambda>(key, cubeInfo). key \<notin> set (excludedCoordinates s)) entries"

definition drawn :: "renderer \<Rightarrow> nat \<Rightarrow> (string \<times> CubeType) list" where
  "drawn s g = map (\<lambda>cube. (mesh_name cube, texture (materials s (material cube)))) (children (groups s g))"

definition expected :: "string \<times> CubeInfo \<Rightarrow> string \<times> CubeType" where
  "expected entry =
     (case entry of (key, cubeInfo) \<Rightarrow>
        (''FloorCube_'' @ kind_text (type cubeInfo) @ ''_''
           @ number_text (pos_x (position cubeInfo)) @ ''_''
           @ number_text (pos_y (position cubeInfo)),
         case type cubeInfo of Room \<Rightarrow> room_floor | Hallway \<Rightarrow> hallway_floor
         | Overlap \<Rightarrow> hallway_floor))"

text \<open>The materials of the meshes of \<open>g\<close> are references that have been given out.\<close>

definition materials_allocated :: "renderer \<Rightarrow> nat \<Rightarrow> bool" where
  "materials_allocated s g = (\<forall>cube \<in> set (children (groups s g)). material cube < next_object s)"

text \<open>
  The steps of \<open>renderAllCubes\<close> before its loop: the values of the options, the state
  after a new group has been named, recorded for the scene and added to it, and the state
  after the group has been cleared and the geometry made.
\<close>

definition option_cubeSize :: "real \<Rightarrow> CubeFloorOptions \<Rightarrow> real" where
  "option_cubeSize getCubeSize options = (case cubeSize options of Some v \<Rightarrow> v | None \<Rightarrow> getCubeSize)"

definition option_yOffset :: "CubeFloorOptions \<Rightarrow> real" where
  "option_yOffset options = (case yOffset options of Some v \<Rightarrow> v | None \<Rightarrow> 0)"

definition attach_group :: "nat \<Rightarrow> renderer \<Rightarrow> renderer" where
  "attach_group scene s =
     scene_add scene (next_object s)
       ((set_group_name (next_object s) ''AllFloorCubes'' (snd (new_Group s)))
          \<lparr>sceneGroups := AList.update scene (next_object s) (sceneGroups s)\<rparr>)"

definition prepared :: "real \<Rightarrow> nat \<Rightarrow> renderer \<Rightarrow> renderer" where
  "prepared cs g s = snd (new_BoxGeometry cs cs cs (group_clear g s))"

subsection \<open>Disposal\<close>

text \<open>Whether a geometry or a material has been disposed of.\<close>

definition disposed_geometry :: "renderer \<Rightarrow> nat \<Rightarrow> bool" where
  "disposed_geometry s g = geometry_disposed (geometries s g)"

definition disposed_material :: "renderer \<Rightarrow> nat \<Rightarrow> bool" where
  "disposed_material s m = material_disposed (materials s m)"

text \<open>
  A scene lists each of its children once, and every child is a reference that has been
  given out.
\<close>

definition scenes_ok :: "renderer \<Rightarrow> bool" where
  "scenes_ok s =
     (\<forall>scene. distinct (scene_children s scene)
        \<and> (\<forall>object \<in> set (scene_children s scene). object < next_object s))"

subsection \<open>Examples\<close>

text \<open>
  A scene graph without objects, with the class as loaded. In \<open>example\<close>, three
  coordinates have been registered as rooms and two as hallways, one of them for the second
  time, and then a registered coordinate has been excluded.
\<close>

definition fresh :: renderer where
  "fresh =
     \<lparr>cubeRegistry = [], sceneGroups = [], excludedCoordinates = [],
      scene_children = (\<lambda>scene. []),
      groups = (\<lambda>g. \<lparr>group_name = [], children = []\<rparr>),
      geometries = (\<lambda>g. \<lparr>box_width = 0, box_height = 0, box_depth = 0, geometry_disposed = False\<rparr>),
      materials = (\<lambda>m. \<lparr>texture = room_floor, material_disposed = False\<rparr>),
      next_object = 0\<rparr>"

definition example :: renderer where
  "example =
     setExcludedCoordinates [\<lparr>pos_x = 4, pos_y = 0\<rparr>]
       (registerCubes [\<lparr>pos_x = 1, pos_y = 0\<rparr>, \<lparr>pos_x = 2, pos_y = 0\<rparr>] 2 RegHallway
         (registerCubes [\<lparr>pos_x = 0, pos_y = 0\<rparr>, \<lparr>pos_x = 1, pos_y = 0\<rparr>, \<lparr>pos_x = 4, pos_y = 0\<rparr>] 1 RegRoom
            fresh))"

definition no_options :: CubeFloorOptions where
  "no_options = \<lparr>cubeSize = None, floorColor = None, yOffset = None\<rparr>"

section \<open>Coordinate keys\<close>

text \<open>
  Two coordinates with the same key are the same coordinate: the decimal text of a number
  determines the number, and a comma occurs in a key only between the two numbers.
\<close>

lemma digit_distinct: "distinct ''0123456789''"
  by simp

lemma digit_nth_inj:
  assumes "i < 10" "j < 10" "''0123456789'' ! i = ''0123456789'' ! j"
  shows "i = j"
proof -
  have "i < length ''0123456789''" "j < length ''0123456789''" using assms by simp_all
  then show ?thesis using assms(3) digit_distinct by (simp only: nth_eq_iff_index_eq)
qed

lemma digit_nth_mem: "i < 10 \<Longrightarrow> ''0123456789'' ! i \<in> set ''0123456789''"
  by (rule nth_mem) simp

lemma digits_of_nonempty: "digits_of n \<noteq> []"
  by (subst digits_of.simps) simp

lemma digits_of_chars: "set (digits_of n) \<subseteq> set ''0123456789''"
proof (induction n rule: digits_of.induct)
  case (1 n)
  show ?case
  proof (cases "n < 10")
    case True
    then show ?thesis using digit_nth_mem[of n] by (subst digits_of.simps) simp
  next
    case False
    have "n mod 10 < 10" by simp
    then have "''0123456789'' ! (n mod 10) \<in> set ''0123456789''" by (rule digit_nth_mem)
    then show ?thesis using 1 False by (subst digits_of.simps) simp
  qed
qed

lemma digits_of_inj: "digits_of m = digits_of n \<Longrightarrow> m = n"
proof (induction m arbitrary: n rule: digits_of.induct)
  case (1 m)
  show ?case
  proof (cases "m < 10")
    case True
    then have m: "digits_of m = [''0123456789'' ! m]" by (subst digits_of.simps) simp
    show ?thesis
    proof (cases "n < 10")
      case n: True
      then have "digits_of n = [''0123456789'' ! n]" by (subst digits_of.simps) simp
      then have "''0123456789'' ! m = ''0123456789'' ! n" using m "1.prems" by simp
      then show ?thesis using True n by (rule digit_nth_inj[rotated 2])
    next
      case False
      then have "digits_of n = digits_of (n div 10) @ [''0123456789'' ! (n mod 10)]"
        by (subst digits_of.simps) simp
      then have "digits_of (n div 10) = []" using m "1.prems" by simp
      then show ?thesis using digits_of_nonempty by blast
    qed
  next
    case False
    then have m: "digits_of m = digits_of (m div 10) @ [''0123456789'' ! (m mod 10)]"
      by (subst digits_of.simps) simp
    show ?thesis
    proof (cases "n < 10")
      case True
      then have "digits_of n = [''0123456789'' ! n]" by (subst digits_of.simps) simp
      then have "digits_of (m div 10) = []" using m "1.prems" by simp
      then show ?thesis using digits_of_nonempty by blast
    next
      case n: False
      then have "digits_of n = digits_of (n div 10) @ [''0123456789'' ! (n mod 10)]"
        by (subst digits_of.simps) simp
      then have eq: "digits_of (m div 10) = digits_of (n div 10)"
          "''0123456789'' ! (m mod 10) = ''0123456789'' ! (n mod 10)"
        using m "1.prems" by simp_all
      have "m div 10 = n div 10" using "1.IH"[OF False eq(1)] .
      moreover have "m mod 10 = n mod 10"
        by (rule digit_nth_inj[OF _ _ eq(2)]) simp_all
      ultimately show ?thesis by (metis div_mult_mod_eq)
    qed
  qed
qed

lemma number_text_chars: "set (number_text n) \<subseteq> insert CHR ''-'' (set ''0123456789'')"
proof (cases "n < 0")
  case True
  then have "set (number_text n) = insert CHR ''-'' (set (digits_of (nat (- n))))"
    by (simp add: number_text_def)
  then show ?thesis using digits_of_chars[of "nat (- n)"] by blast
next
  case False
  then have "set (number_text n) = set (digits_of (nat n))"
    by (simp add: number_text_def)
  then show ?thesis using digits_of_chars[of "nat n"] by blast
qed

lemma minus_no_digit: "CHR ''-'' \<notin> set ''0123456789''"
  by simp

lemma comma_no_digit: "CHR '','' \<notin> insert CHR ''-'' (set ''0123456789'')"
  by simp

lemma number_text_inj: "number_text m = number_text n \<Longrightarrow> m = n"
proof -
  assume eq: "number_text m = number_text n"
  have no_minus: "hd (digits_of k) \<noteq> CHR ''-''" for k
  proof -
    have "hd (digits_of k) \<in> set (digits_of k)" using digits_of_nonempty by simp
    then have "hd (digits_of k) \<in> set ''0123456789''" using digits_of_chars by blast
    then show ?thesis using minus_no_digit by metis
  qed
  have start: "digits_of k \<noteq> CHR ''-'' # ds" for k ds
    using no_minus[of k] by (cases "digits_of k") auto
  show "m = n"
  proof (cases "m < 0")
    case True
    show ?thesis
    proof (cases "n < 0")
      case n: True
      then have "digits_of (nat (- m)) = digits_of (nat (- n))"
        using True eq by (simp add: number_text_def)
      then have "nat (- m) = nat (- n)" by (rule digits_of_inj)
      then show ?thesis using True n by simp
    next
      case False
      then show ?thesis using True eq start[of "nat n" "digits_of (nat (- m))"]
        by (simp add: number_text_def)
    qed
  next
    case False
    show ?thesis
    proof (cases "n < 0")
      case True
      then show ?thesis using False eq start[of "nat m" "digits_of (nat (- n))"]
        by (simp add: number_text_def)
    next
      case n: False
      then have "digits_of (nat m) = digits_of (nat n)"
        using False eq by (simp add: number_text_def)
      then have "nat m = nat n" by (rule digits_of_inj)
      then show ?thesis using False n by simp
    qed
  qed
qed

lemma split_at_comma:
  assumes "a @ CHR '','' # b = a' @ CHR '','' # b'"
    and "CHR '','' \<notin> set a" "CHR '','' \<notin> set a'"
  shows "a = a' \<and> b = b'"
  using assms
proof (induction a arbitrary: a')
  case Nil
  then show ?case by (cases a') auto
next
  case (Cons c a)
  show ?case
  proof (cases a')
    case Nil
    then show ?thesis using Cons.prems by auto
  next
    case (Cons c' a'')
    then have "a @ CHR '','' # b = a'' @ CHR '','' # b'" "CHR '','' \<notin> set a" "CHR '','' \<notin> set a''" "c = c'"
      using Cons.prems by simp_all
    then show ?thesis using Cons.IH[of a''] Cons by simp
  qed
qed

lemma getCubeKey_inj:
  assumes "getCubeKey x y = getCubeKey x' y'"
  shows "x = x' \<and> y = y'"
proof -
  have comma: "CHR '','' \<notin> set (number_text k)" for k
    using number_text_chars[of k] comma_no_digit by blast
  have "number_text x = number_text x' \<and> number_text y = number_text y'"
    using assms comma by (intro split_at_comma) (simp_all add: getCubeKey_def)
  then show ?thesis using number_text_inj by blast
qed

lemma key_of_inj:
  assumes "key_of p = key_of q"
  shows "p = q"
proof -
  have "pos_x p = pos_x q \<and> pos_y p = pos_y q"
    using assms unfolding key_of_def by (rule getCubeKey_inj)
  then show ?thesis by (cases p, cases q) simp
qed

section \<open>Registration and overlap\<close>

lemma register_coord_excluded [simp]:
  "excludedCoordinates (register_coord c t coord s) = excludedCoordinates s"
  by (simp add: register_coord_def Let_def split: option.splits)

lemma registerCubes_excluded [simp]:
  "excludedCoordinates (registerCubes coordinates c t s) = excludedCoordinates s"
  unfolding registerCubes_def by (induction coordinates arbitrary: s) simp_all

lemma registerCubes_Nil [simp]: "registerCubes [] c t s = s"
  by (simp add: registerCubes_def)

lemma registerCubes_Cons [simp]:
  "registerCubes (coord # coordinates) c t s = registerCubes coordinates c t (register_coord c t coord s)"
  by (simp add: registerCubes_def)

lemma registerCubes_append [simp]:
  "registerCubes (xs @ ys) c t s = registerCubes ys c t (registerCubes xs c t s)"
  by (simp add: registerCubes_def)

lemma register_coord_lookup:
  "map_of (cubeRegistry (register_coord c t coord s)) k =
     (if key_of coord \<in> set (excludedCoordinates s) \<or> k \<noteq> key_of coord then map_of (cubeRegistry s) k
      else if map_of (cubeRegistry s) k = None
           then Some \<lparr>position = coord, color = c, type = kind_of t\<rparr>
           else Some \<lparr>position = coord, color = 0x800080, type = Overlap\<rparr>)"
  by (auto simp add: register_coord_def key_of_def Let_def update_conv' split: option.splits)

lemma register_coord_present:
  "map_of (cubeRegistry s) k \<noteq> None \<Longrightarrow> map_of (cubeRegistry (register_coord c t coord s)) k \<noteq> None"
  by (simp add: register_coord_lookup)

lemma registerCubes_present:
  "map_of (cubeRegistry s) k \<noteq> None \<Longrightarrow> map_of (cubeRegistry (registerCubes coordinates c t s)) k \<noteq> None"
proof (induction coordinates arbitrary: s)
  case Nil
  then show ?case by simp
next
  case (Cons a coordinates)
  show ?case
    using Cons.IH[OF register_coord_present[OF Cons.prems]] by simp
qed

lemma registerCubes_duplicate_present:
  "d \<in> set coordinates \<Longrightarrow> key_of d \<notin> set (excludedCoordinates s) \<Longrightarrow>
   map_of (cubeRegistry (registerCubes coordinates c t s)) (key_of d) \<noteq> None"
proof (induction coordinates arbitrary: s)
  case Nil
  then show ?case by simp
next
  case (Cons a coordinates)
  show ?case
  proof (cases "d = a")
    case True
    have "map_of (cubeRegistry (register_coord c t a s)) (key_of d) \<noteq> None"
      using True Cons.prems(2) by (auto simp add: register_coord_lookup)
    then show ?thesis by (simp add: registerCubes_present)
  next
    case False
    then have "d \<in> set coordinates" using Cons.prems(1) by simp
    then show ?thesis using Cons.IH[of "register_coord c t a s"] Cons.prems(2) by simp
  qed
qed

lemma register_coord_stays_overlap:
  "is_overlap (map_of (cubeRegistry s) k) \<Longrightarrow> is_overlap (map_of (cubeRegistry (register_coord c t coord s)) k)"
  by (auto simp add: register_coord_lookup is_overlap_def)

lemma registerCubes_stays_overlap:
  "is_overlap (map_of (cubeRegistry s) k) \<Longrightarrow> is_overlap (map_of (cubeRegistry (registerCubes coordinates c t s)) k)"
  by (induction coordinates arbitrary: s) (simp_all add: register_coord_stays_overlap)

text \<open>
  C1. When \<open>registerCubes\<close> comes to a coordinate whose key is not excluded and the
  registry already holds a record under that key, whether the record was there before the
  call or was made by an earlier coordinate of the same batch with the same key, the record
  becomes an overlap with the colour \<open>0x800080\<close> and the position of that coordinate,
  whatever the kind being registered and whatever the record held. The record is still an
  overlap with that colour when the batch is finished.
\<close>

theorem registerCubes_overlap:
  assumes "key_of coord \<notin> set (excludedCoordinates s)"
    and "map_of (cubeRegistry s) (key_of coord) = Some existing
         \<or> (\<exists>d \<in> set before. key_of d = key_of coord)"
  shows "map_of (cubeRegistry (registerCubes (before @ [coord]) c t s)) (key_of coord)
           = Some \<lparr>position = coord, color = 0x800080, type = Overlap\<rparr>
       \<and> (\<exists>p. map_of (cubeRegistry (registerCubes (before @ coord # after) c t s)) (key_of coord)
           = Some \<lparr>position = p, color = 0x800080, type = Overlap\<rparr>)"
proof -
  let ?s1 = "registerCubes before c t s"
  have present: "map_of (cubeRegistry ?s1) (key_of coord) \<noteq> None"
    using assms(2)
  proof
    assume "map_of (cubeRegistry s) (key_of coord) = Some existing"
    then show ?thesis by (simp add: registerCubes_present)
  next
    assume "\<exists>d \<in> set before. key_of d = key_of coord"
    then obtain d where "d \<in> set before" "key_of d = key_of coord" by blast
    then show ?thesis using registerCubes_duplicate_present[of d before s c t] assms(1) by simp
  qed
  have step: "map_of (cubeRegistry (register_coord c t coord ?s1)) (key_of coord)
           = Some \<lparr>position = coord, color = 0x800080, type = Overlap\<rparr>"
    using present assms(1) by (auto simp add: register_coord_lookup)
  then have "is_overlap (map_of (cubeRegistry (register_coord c t coord ?s1)) (key_of coord))"
    by (simp add: is_overlap_def)
  then have "is_overlap (map_of (cubeRegistry (registerCubes after c t (register_coord c t coord ?s1))) (key_of coord))"
    by (rule registerCubes_stays_overlap)
  then show ?thesis using step by (simp add: is_overlap_def)
qed

theorem registerCubes_overlap_witness:
  "key_of \<lparr>pos_x = 2, pos_y = - 1\<rparr> \<notin> set (excludedCoordinates (registerCubes [\<lparr>pos_x = 2, pos_y = - 1\<rparr>] 7 RegRoom fresh))
   \<and> map_of (cubeRegistry (registerCubes [\<lparr>pos_x = 2, pos_y = - 1\<rparr>] 7 RegRoom fresh))
         (key_of \<lparr>pos_x = 2, pos_y = - 1\<rparr>)
       = Some \<lparr>position = \<lparr>pos_x = 2, pos_y = - 1\<rparr>, color = 7, type = Room\<rparr>
   \<and> map_of (cubeRegistry (registerCubes ([] @ [\<lparr>pos_x = 2, pos_y = - 1\<rparr>]) 9 RegHallway
           (registerCubes [\<lparr>pos_x = 2, pos_y = - 1\<rparr>] 7 RegRoom fresh)))
         (key_of \<lparr>pos_x = 2, pos_y = - 1\<rparr>)
       = Some \<lparr>position = \<lparr>pos_x = 2, pos_y = - 1\<rparr>, color = 0x800080, type = Overlap\<rparr>"
  using registerCubes_overlap [of "\<lparr>pos_x = 2, pos_y = - 1\<rparr>"
      "registerCubes [\<lparr>pos_x = 2, pos_y = - 1\<rparr>] 7 RegRoom fresh"
      "\<lparr>position = \<lparr>pos_x = 2, pos_y = - 1\<rparr>, color = 7, type = Room\<rparr>" "[]" 9 RegHallway "[]"]
  by (simp add: fresh_def register_coord_def key_of_def getCubeKey_def number_text_def
      digits_of.simps)

lemma register_coord_skip:
  "key_of coord \<in> set (excludedCoordinates s) \<Longrightarrow> register_coord c t coord s = s"
  by (simp add: register_coord_def key_of_def)

text \<open>
  C2. A coordinate whose key is excluded is skipped by \<open>registerCubes\<close>: processing it
  leaves the state as it is, and after a whole batch the registry holds under that key
  what it held before, a record or none.
\<close>

theorem registerCubes_excluded_noop:
  assumes "key_of coord \<in> set (excludedCoordinates s)"
  shows "register_coord c t coord s = s
       \<and> map_of (cubeRegistry (registerCubes coordinates c t s)) (key_of coord)
           = map_of (cubeRegistry s) (key_of coord)"
proof -
  have "k \<in> set (excludedCoordinates s) \<Longrightarrow>
        map_of (cubeRegistry (registerCubes coordinates c t s)) k = map_of (cubeRegistry s) k" for k
  proof (induction coordinates arbitrary: s)
    case Nil
    then show ?case by simp
  next
    case (Cons a coordinates)
    have "map_of (cubeRegistry (register_coord c t a s)) k = map_of (cubeRegistry s) k"
      using Cons.prems by (auto simp add: register_coord_lookup)
    then show ?case using Cons.IH[of "register_coord c t a s"] Cons.prems by simp
  qed
  then show ?thesis using assms by (simp add: register_coord_skip)
qed


theorem registerCubes_excluded_noop_witness:
  "key_of \<lparr>pos_x = 4, pos_y = 0\<rparr>
     \<in> set (excludedCoordinates (setExcludedCoordinates [\<lparr>pos_x = 4, pos_y = 0\<rparr>] fresh))
   \<and> map_of (cubeRegistry (registerCubes [\<lparr>pos_x = 4, pos_y = 0\<rparr>, \<lparr>pos_x = 5, pos_y = 0\<rparr>] 7 RegRoom
           (setExcludedCoordinates [\<lparr>pos_x = 4, pos_y = 0\<rparr>] fresh)))
         (key_of \<lparr>pos_x = 4, pos_y = 0\<rparr>) = None"
  using registerCubes_excluded_noop [of "\<lparr>pos_x = 4, pos_y = 0\<rparr>"
      "setExcludedCoordinates [\<lparr>pos_x = 4, pos_y = 0\<rparr>] fresh" 7 RegRoom
      "[\<lparr>pos_x = 4, pos_y = 0\<rparr>, \<lparr>pos_x = 5, pos_y = 0\<rparr>]"]
  by (simp add: fresh_def setExcludedCoordinates_def set_add_def register_coord_def key_of_def getCubeKey_def
      number_text_def digits_of.simps)

section \<open>The exclusion set\<close>

lemma fold_set_add_set: "set (fold set_add xs ys) = set xs \<union> set ys"
  by (induction xs arbitrary: ys) (auto simp add: set_add_def)

lemma fold_set_add_distinct: "distinct ys \<Longrightarrow> distinct (fold set_add xs ys)"
  by (induction xs arbitrary: ys) (auto simp add: set_add_def)

lemma setExcludedCoordinates_eq:
  "setExcludedCoordinates coordinates s =
     s\<lparr>excludedCoordinates := fold set_add (map key_of coordinates) []\<rparr>"
proof -
  have "fold (\<lambda>coord s'.
             let key = getCubeKey (pos_x coord) (pos_y coord)
             in s'\<lparr>excludedCoordinates := set_add key (excludedCoordinates s')\<rparr>) coordinates s0
        = s0\<lparr>excludedCoordinates := fold set_add (map key_of coordinates) (excludedCoordinates s0)\<rparr>" for s0 :: renderer
    by (induction coordinates arbitrary: s0) (simp_all add: key_of_def)
  then show ?thesis by (simp add: setExcludedCoordinates_def)
qed

text \<open>
  C7. \<open>setExcludedCoordinates\<close> makes the exclusion set the set of the keys of its
  argument, each key once; what was excluded before has no influence on the result; doing
  it again with the same argument changes nothing; and the registry is left as it was.
\<close>

theorem setExcludedCoordinates_replaces:
  "set (excludedCoordinates (setExcludedCoordinates coordinates s)) = key_of ` set coordinates
   \<and> distinct (excludedCoordinates (setExcludedCoordinates coordinates s))
   \<and> setExcludedCoordinates coordinates (s\<lparr>excludedCoordinates := previous\<rparr>)
       = setExcludedCoordinates coordinates s
   \<and> setExcludedCoordinates coordinates (setExcludedCoordinates coordinates s)
       = setExcludedCoordinates coordinates s
   \<and> cubeRegistry (setExcludedCoordinates coordinates s) = cubeRegistry s"
  by (simp add: setExcludedCoordinates_eq fold_set_add_set fold_set_add_distinct)

section \<open>Rounding to a double\<close>

text \<open>
  What the proofs below need of \<open>to_double\<close>: the rounding of a real stays within the
  powers of two that bound the real, an integer up to \<open>2 ^ 53\<close> in absolute value and a
  power of two in the normal range are doubles, a real from \<open>2 ^ 1024\<close> on rounds to
  infinity, and \<open>2 ^ 53 + 1\<close> rounds to \<open>2 ^ 53\<close>: from there on, adding one to a
  counter leaves it where it is.
\<close>

lemma round_even_near: "\<bar>of_int (round_even q) - q\<bar> \<le> 1 / 2"
  by (auto simp: round_even_def abs_le_iff)

lemma round_even_int [simp]: "round_even (of_int n) = n"
  by (simp add: round_even_def)

lemma round_even_upper:
  assumes "\<bar>q\<bar> \<le> of_int N"
  shows "\<bar>round_even q\<bar> \<le> N"
proof -
  have "\<bar>of_int (round_even q)\<bar> \<le> \<bar>q\<bar> + 1 / 2" using round_even_near[of q] by linarith
  then have "real_of_int \<bar>round_even q\<bar> \<le> of_int N + 1 / 2" using assms by simp
  then have "real_of_int \<bar>round_even q\<bar> < of_int (N + 1)" by simp
  then show ?thesis by linarith
qed

lemma round_even_lower:
  assumes "of_int N \<le> q"
  shows "N \<le> round_even q"
proof -
  have "q - 1 / 2 \<le> of_int (round_even q)" using round_even_near[of q] by linarith
  then have "real_of_int (N - 1) < of_int (round_even q)" using assms by simp
  then show ?thesis by linarith
qed

lemma round_even_nonneg: "0 \<le> q \<Longrightarrow> 0 \<le> round_even q"
  using round_even_lower[of 0 q] by simp

lemma two_powr_int: "2 powr real_of_int k = (2::real) powi k"
  by (rule powr_real_of_int') simp_all

lemma log2_bounds:
  assumes "x \<noteq> 0"
  shows "2 powi \<lfloor>log 2 \<bar>x\<bar>\<rfloor> \<le> \<bar>x\<bar>" and "\<bar>x\<bar> < 2 powi (\<lfloor>log 2 \<bar>x\<bar>\<rfloor> + 1)"
proof -
  have pos: "0 < \<bar>x\<bar>" using assms by simp
  have "\<lfloor>log 2 \<bar>x\<bar>\<rfloor> = \<lfloor>log 2 \<bar>x\<bar>\<rfloor> \<longleftrightarrow>
      2 powr real_of_int \<lfloor>log 2 \<bar>x\<bar>\<rfloor> \<le> \<bar>x\<bar> \<and> \<bar>x\<bar> < 2 powr real_of_int (\<lfloor>log 2 \<bar>x\<bar>\<rfloor> + 1)"
    by (rule floor_log_eq_powr_iff[OF pos]) simp
  then show "2 powi \<lfloor>log 2 \<bar>x\<bar>\<rfloor> \<le> \<bar>x\<bar>" and "\<bar>x\<bar> < 2 powi (\<lfloor>log 2 \<bar>x\<bar>\<rfloor> + 1)"
    by (simp_all only: two_powr_int simp_thms)
qed

lemma log2_unique:
  assumes "2 powi k \<le> \<bar>x\<bar>" and "\<bar>x\<bar> < 2 powi (k + 1)"
  shows "\<lfloor>log 2 \<bar>x\<bar>\<rfloor> = k"
proof -
  have pos: "0 < \<bar>x\<bar>" using assms(1) zero_less_power_int[of "2::real" k] by linarith
  have "\<lfloor>log 2 \<bar>x\<bar>\<rfloor> = k \<longleftrightarrow>
      2 powr real_of_int k \<le> \<bar>x\<bar> \<and> \<bar>x\<bar> < 2 powr real_of_int (k + 1)"
    by (rule floor_log_eq_powr_iff[OF pos]) simp
  then show ?thesis using assms by (simp only: two_powr_int simp_thms)
qed

lemma two_powi_less [simp]: "(2::real) powi a < 2 powi b \<longleftrightarrow> a < b"
proof
  assume less: "(2::real) powi a < 2 powi b"
  show "a < b"
  proof (rule ccontr)
    assume "\<not> a < b"
    then have "b \<le> a" by simp
    then have "(2::real) powi b \<le> 2 powi a" by (rule power_int_increasing) simp
    then show False using less by linarith
  qed
next
  assume "a < b"
  then show "(2::real) powi a < 2 powi b" by (rule power_int_strict_increasing) simp
qed

lemma two_powi_le [simp]: "(2::real) powi a \<le> 2 powi b \<longleftrightarrow> a \<le> b"
proof
  assume le: "(2::real) powi a \<le> 2 powi b"
  show "a \<le> b"
  proof (rule ccontr)
    assume "\<not> a \<le> b"
    then have "b < a" by simp
    then have "(2::real) powi b < 2 powi a" by (rule power_int_strict_increasing) simp
    then show False using le by linarith
  qed
next
  assume "a \<le> b"
  then show "(2::real) powi a \<le> 2 powi b" by (rule power_int_increasing) simp
qed

lemma two_powi_add: "(2::real) powi (a + b) = 2 powi a * 2 powi b"
  by (rule power_int_add) simp

lemma two_powi_diff: "(2::real) powi (a - b) = 2 powi a / 2 powi b"
  by (rule power_int_diff) simp

lemma two_powi_nat: "0 \<le> a \<Longrightarrow> (2::real) powi a = of_int (2 ^ nat a)"
  by (simp add: power_int_def)

lemma exponent_ge: "- 1022 \<le> exponent x"
  by (simp add: exponent_def)

lemma exponent_less:
  assumes "x \<noteq> 0"
  shows "\<bar>x\<bar> < 2 powi (exponent x + 1)"
proof -
  have "\<bar>x\<bar> < 2 powi (\<lfloor>log 2 \<bar>x\<bar>\<rfloor> + 1)" using assms by (rule log2_bounds)
  also have "\<dots> \<le> 2 powi (exponent x + 1)" by (simp add: exponent_def)
  finally show ?thesis .
qed

lemma exponent_le:
  assumes "\<bar>x\<bar> \<le> 2 powi k" and "- 1022 \<le> k" and "x \<noteq> 0"
  shows "exponent x \<le> k"
proof -
  have "2 powi \<lfloor>log 2 \<bar>x\<bar>\<rfloor> \<le> \<bar>x\<bar>" using assms(3) by (rule log2_bounds)
  then have "(2::real) powi \<lfloor>log 2 \<bar>x\<bar>\<rfloor> \<le> 2 powi k" using assms(1) by linarith
  then show ?thesis using assms(2) by (simp add: exponent_def)
qed

lemma exponent_lower:
  assumes "2 powi k \<le> \<bar>x\<bar>" and "- 1022 \<le> k"
  shows "k \<le> exponent x" and "2 powi exponent x \<le> \<bar>x\<bar>"
proof -
  have "0 < (2::real) powi k" by simp
  then have "0 < \<bar>x\<bar>" using assms(1) by linarith
  then have nz: "x \<noteq> 0" by simp
  have "(2::real) powi k < 2 powi (\<lfloor>log 2 \<bar>x\<bar>\<rfloor> + 1)"
    using assms(1) log2_bounds(2)[OF nz] by linarith
  then have le: "k \<le> \<lfloor>log 2 \<bar>x\<bar>\<rfloor>" by simp
  then show "k \<le> exponent x" by (simp add: exponent_def)
  have "exponent x = \<lfloor>log 2 \<bar>x\<bar>\<rfloor>" using le assms(2) by (simp add: exponent_def)
  then show "2 powi exponent x \<le> \<bar>x\<bar>" using log2_bounds(1)[OF nz] by simp
qed

lemma ulp_pos: "0 < ulp_of x"
  by (simp add: ulp_of_def)

lemma to_double_eq:
  "to_double x =
     (if x = 0 then Finite 0
      else if 2 ^ 1024 \<le> \<bar>rounded x\<bar> then (if 0 < x then PosInfinity else NegInfinity)
      else Finite (rounded x))"
  by (simp add: to_double_def rounded_def ulp_of_def Let_def)

lemma rounded_upper:
  assumes "\<bar>x\<bar> \<le> 2 powi k" and "- 1022 \<le> k" and "x \<noteq> 0"
  shows "\<bar>rounded x\<bar> \<le> 2 powi k"
proof -
  have e: "exponent x \<le> k" using assms by (rule exponent_le)
  define N :: int where "N = 2 ^ nat (k - exponent x + 52)"
  have N: "of_int N = (2::real) powi (k - exponent x + 52)"
    unfolding N_def using e by (simp add: two_powi_nat)
  have "2 powi k = of_int N * ulp_of x"
    unfolding N ulp_of_def by (simp add: two_powi_add [symmetric])
  then have "\<bar>x / ulp_of x\<bar> \<le> of_int N"
    using assms(1) ulp_pos[of x] by (simp add: field_simps)
  then have "\<bar>round_even (x / ulp_of x)\<bar> \<le> N" by (rule round_even_upper)
  then have "\<bar>real_of_int (round_even (x / ulp_of x))\<bar> \<le> of_int N" by linarith
  then have "\<bar>rounded x\<bar> \<le> of_int N * ulp_of x"
    unfolding rounded_def using ulp_pos[of x] by (simp add: abs_mult mult_right_mono)
  then show ?thesis by (simp add: \<open>2 powi k = of_int N * ulp_of x\<close>)
qed

lemma rounded_lower:
  assumes "2 powi k \<le> x" and "- 1022 \<le> k"
  shows "2 powi k \<le> rounded x"
proof -
  have xpos: "0 < x" using assms(1) zero_less_power_int[of "2::real" k] by linarith
  then have abs: "\<bar>x\<bar> = x" by simp
  have e: "k \<le> exponent x" "2 powi exponent x \<le> x"
    using exponent_lower[of k x] assms abs by simp_all
  have "(2::real) powi exponent x = of_int (2 ^ 52) * ulp_of x"
    unfolding ulp_of_def by (simp add: two_powi_diff)
  then have "of_int (2 ^ 52) \<le> x / ulp_of x"
    using e(2) ulp_pos[of x] by (simp add: field_simps)
  then have "2 ^ 52 \<le> round_even (x / ulp_of x)" by (rule round_even_lower)
  then have "real_of_int (2 ^ 52) \<le> of_int (round_even (x / ulp_of x))" by linarith
  then have "of_int (2 ^ 52) * ulp_of x \<le> rounded x"
    unfolding rounded_def using ulp_pos[of x] by (simp add: mult_right_mono)
  then have "2 powi exponent x \<le> rounded x"
    by (simp add: \<open>(2::real) powi exponent x = of_int (2 ^ 52) * ulp_of x\<close>)
  moreover have "(2::real) powi k \<le> 2 powi exponent x" using e(1) by simp
  ultimately show ?thesis by linarith
qed

lemma rounded_nonneg: "0 \<le> x \<Longrightarrow> 0 \<le> rounded x"
  unfolding rounded_def using ulp_pos[of x] round_even_nonneg[of "x / ulp_of x"] by simp

lemma rounded_exact:
  assumes "x = of_int m * ulp_of x"
  shows "rounded x = x"
proof -
  have "x / ulp_of x = of_int m" using assms ulp_pos[of x] by (simp add: field_simps)
  then show ?thesis unfolding rounded_def using assms by simp
qed

lemma to_double_bounded:
  assumes "\<bar>x\<bar> \<le> 2 powi k" and "- 1022 \<le> k" and "k \<le> 1023"
  shows "\<exists>y. to_double x = Finite y \<and> \<bar>y\<bar> \<le> 2 powi k \<and> (0 \<le> x \<longrightarrow> 0 \<le> y)"
proof (cases "x = 0")
  case True
  then show ?thesis by (simp add: to_double_eq)
next
  case False
  have le: "\<bar>rounded x\<bar> \<le> 2 powi k" using assms(1,2) False by (rule rounded_upper)
  have "(2::real) powi k < 2 powi 1024" using assms(3) by (simp only: two_powi_less)
  then have "\<bar>rounded x\<bar> < 2 powi 1024" using le by linarith
  then have "\<bar>rounded x\<bar> < 2 ^ 1024" by (simp only: power_int_numeral)
  then have "to_double x = Finite (rounded x)" using False by (simp add: to_double_eq)
  then show ?thesis using le rounded_nonneg[of x] by simp
qed

lemma to_double_lower:
  assumes "2 powi k \<le> x" and "- 1022 \<le> k"
  shows "to_double x = PosInfinity \<or> (\<exists>y. to_double x = Finite y \<and> 2 powi k \<le> y)"
proof -
  have "0 < (2::real) powi k" by simp
  then have "0 < x" using assms(1) by linarith
  moreover have "2 powi k \<le> rounded x" using assms by (rule rounded_lower)
  ultimately show ?thesis by (simp add: to_double_eq)
qed

lemma to_double_overflow:
  assumes "2 ^ 1024 \<le> x"
  shows "to_double x = PosInfinity"
proof -
  have "(2::real) powi 1024 \<le> x" using assms by simp
  then have "2 powi 1024 \<le> rounded x" by (rule rounded_lower) simp
  then have "2 ^ 1024 \<le> \<bar>rounded x\<bar>" by simp
  moreover have "0 < x" using assms by (smt (verit) zero_less_power)
  ultimately show ?thesis by (simp add: to_double_eq)
qed

lemma to_double_power:
  assumes "- 1022 \<le> k" and "k \<le> 1023"
  shows "to_double (2 powi k) = Finite (2 powi k)"
proof -
  have "\<bar>(2::real) powi k\<bar> \<le> 2 powi k" by simp
  then obtain y where y: "to_double (2 powi k) = Finite y" "\<bar>y\<bar> \<le> 2 powi k"
    using to_double_bounded[OF _ assms] by blast
  have "to_double (2 powi k) = PosInfinity \<or> (\<exists>y. to_double (2 powi k) = Finite y \<and> 2 powi k \<le> y)"
    by (rule to_double_lower) (simp_all add: assms)
  then have "2 powi k \<le> y" using y(1) by simp
  then show ?thesis using y by simp
qed

lemma to_double_nonzero:
  assumes "to_double x = Finite y" and "y \<noteq> 0"
  shows "2 powi (- 1074) \<le> \<bar>y\<bar>"
proof -
  have nz: "x \<noteq> 0" using assms by (auto simp add: to_double_eq)
  then have y: "y = rounded x" using assms(1) by (simp add: to_double_eq split: if_splits)
  then have "round_even (x / ulp_of x) \<noteq> 0" using assms(2) by (auto simp add: rounded_def)
  then have "1 \<le> \<bar>real_of_int (round_even (x / ulp_of x))\<bar>" by linarith
  then have "ulp_of x \<le> \<bar>rounded x\<bar>"
    unfolding rounded_def using ulp_pos[of x] by (simp add: abs_mult)
  moreover have "2 powi (- 1074) \<le> ulp_of x"
  proof -
    have "- 1074 \<le> exponent x - 52" using exponent_ge[of x] by linarith
    then show ?thesis by (simp only: ulp_of_def two_powi_le)
  qed
  ultimately show ?thesis using y by linarith
qed

lemma exponent_int:
  assumes "n \<noteq> 0" and "\<bar>n\<bar> \<le> 2 ^ 53"
  shows "0 \<le> exponent (of_int n)" and "exponent (of_int n) \<le> 53"
    and "exponent (of_int n) = 53 \<Longrightarrow> \<bar>n\<bar> = 2 ^ 53"
proof -
  have one: "(2::real) powi 0 \<le> \<bar>of_int n\<bar>" using assms(1) by (simp; linarith)
  show "0 \<le> exponent (of_int n)" using exponent_lower(1)[OF one] by simp
  have "\<bar>real_of_int n\<bar> \<le> 2 powi 53" using assms(2) by (simp; linarith)
  then show "exponent (of_int n) \<le> 53" using assms(1) by (intro exponent_le) simp_all
  assume "exponent (of_int n) = 53"
  then have "(2::real) powi 53 \<le> \<bar>of_int n\<bar>" using exponent_lower(2)[OF one] by simp
  then have "2 ^ 53 \<le> \<bar>n\<bar>" by (simp; linarith)
  then show "\<bar>n\<bar> = 2 ^ 53" using assms(2) by simp
qed

lemma to_double_int:
  assumes "\<bar>n\<bar> \<le> 2 ^ 53"
  shows "to_double (of_int n) = Finite (of_int n)"
proof (cases "n = 0")
  case True
  then show ?thesis by (simp add: to_double_eq)
next
  case False
  note e = exponent_int[OF False assms]
  have "\<exists>m. real_of_int n = of_int m * ulp_of (of_int n)"
  proof (cases "exponent (of_int n) = 53")
    case True
    then have "\<bar>n\<bar> = 2 ^ 53" by (rule e(3))
    then have "n = 2 ^ 52 * 2 \<or> n = (- (2 ^ 52)) * 2" by (simp; linarith)
    then have "real_of_int n = of_int (2 ^ 52) * 2 \<or> real_of_int n = of_int (- (2 ^ 52)) * 2"
      by auto
    moreover have "ulp_of (of_int n) = 2" using True by (simp add: ulp_of_def)
    ultimately show ?thesis by metis
  next
    case False
    then have le: "exponent (of_int n) \<le> 52" using e(2) by simp
    have "(2::real) powi (52 - exponent (of_int n)) = of_int (2 ^ nat (52 - exponent (of_int n)))"
      using le by (simp add: two_powi_nat)
    moreover have "(2::real) powi (52 - exponent (of_int n)) * ulp_of (of_int n) = 1"
      unfolding ulp_of_def by (simp add: two_powi_add [symmetric])
    ultimately have "real_of_int n = of_int (n * 2 ^ nat (52 - exponent (of_int n))) * ulp_of (of_int n)"
      by (simp add: mult.assoc)
    then show ?thesis by blast
  qed
  then obtain m where "real_of_int n = of_int m * ulp_of (of_int n)" by blast
  then have "rounded (of_int n) = of_int n" by (rule rounded_exact)
  moreover have "\<bar>real_of_int n\<bar> < 2 ^ 1024"
  proof -
    have "real_of_int \<bar>n\<bar> \<le> of_int (2 ^ 53)" using assms by (simp only: of_int_le_iff)
    then have "\<bar>real_of_int n\<bar> \<le> 2 ^ 53" by simp
    also have "\<dots> < (2::real) ^ 1024" by simp
    finally show ?thesis .
  qed
  ultimately show ?thesis using False by (simp add: to_double_eq)
qed

lemma to_double_stall: "to_double (2 ^ 53 + 1) = Finite (2 ^ 53)"
proof -
  define x :: real where "x = 2 ^ 53 + 1"
  have "\<lfloor>log 2 \<bar>x\<bar>\<rfloor> = 53" by (rule log2_unique) (simp_all add: x_def)
  then have e: "exponent x = 53" by (simp add: exponent_def)
  then have u: "ulp_of x = 2" by (simp add: ulp_of_def)
  have "round_even (x / 2) = 2 ^ 52" by (simp add: round_even_def x_def)
  then have r: "rounded x = 2 ^ 53" by (simp add: rounded_def u)
  have "x \<noteq> 0" by (simp add: x_def)
  then have "to_double x = Finite (2 ^ 53)" by (simp add: to_double_eq r)
  then show ?thesis by (simp only: x_def)
qed

lemma to_double_zero [simp]: "to_double 0 = Finite 0"
  by (simp add: to_double_def)

lemma to_double_one [simp]: "to_double 1 = Finite 1"
  using to_double_int[of 1] by simp

lemma to_double_half: "to_double (1 / 2) = Finite (1 / 2)"
proof -
  have "to_double (2 powi (- 1)) = Finite (2 powi (- 1))" by (rule to_double_power) simp_all
  then show ?thesis by (simp add: power_int_minus inverse_eq_divide)
qed

lemma to_double_three_halves: "to_double (3 / 2) = Finite (3 / 2)"
proof -
  define x :: real where "x = 3 / 2"
  have "\<lfloor>log 2 \<bar>x\<bar>\<rfloor> = 0" by (rule log2_unique) (simp_all add: x_def)
  then have "exponent x = 0" by (simp add: exponent_def)
  then have u: "ulp_of x = 2 powi (- 52)" by (simp add: ulp_of_def)
  have "(2::real) powi (- 52) = 1 / 2 ^ 52" by (simp add: power_int_minus inverse_eq_divide)
  then have "x = of_int (3 * 2 ^ 51) * ulp_of x" unfolding u by (simp add: x_def)
  then have "rounded x = x" by (rule rounded_exact)
  moreover have "x \<noteq> 0" "\<bar>x\<bar> < 2 ^ 1024" by (simp_all add: x_def)
  ultimately have "to_double x = Finite x" by (simp add: to_double_eq)
  then show ?thesis by (simp only: x_def)
qed

lemma to_double_nonneg:
  assumes "to_double x = Finite y" and "0 \<le> x"
  shows "0 \<le> y"
  using assms rounded_nonneg[of x] by (simp add: to_double_eq split: if_splits)

lemma to_double_numeral:
  "numeral n \<le> (2::int) ^ 53 \<Longrightarrow> to_double (numeral n) = Finite (numeral n)"
  using to_double_int[of "numeral n"] by simp

lemma to_double_stall_numeral: "to_double 9007199254740993 = Finite 9007199254740992"
  using to_double_stall by simp

text \<open>Bounds on the results of the operations.\<close>

lemma below_Finite: "below k (Finite a) \<longleftrightarrow> \<bar>a\<bar> \<le> 2 ^ k"
  by (simp add: below_def)

lemma below_mono: "below j v \<Longrightarrow> j \<le> k \<Longrightarrow> below k v"
proof -
  assume v: "below j v" and le: "j \<le> k"
  have "(2::real) ^ j \<le> 2 ^ k" using le by (rule power_increasing) simp
  moreover obtain a where "v = Finite a" "\<bar>a\<bar> \<le> 2 ^ j" using v unfolding below_def by blast
  ultimately have "v = Finite a \<and> \<bar>a\<bar> \<le> 2 ^ k" by linarith
  then show ?thesis unfolding below_def by blast
qed

lemma to_double_finite:
  assumes "\<bar>x\<bar> \<le> 2 ^ k" and "k \<le> 1023"
  shows "\<exists>y. to_double x = Finite y \<and> \<bar>y\<bar> \<le> 2 ^ k \<and> (0 \<le> x \<longrightarrow> 0 \<le> y)"
proof -
  have "\<bar>x\<bar> \<le> 2 powi int k" using assms(1) by simp
  then have "\<exists>y. to_double x = Finite y \<and> \<bar>y\<bar> \<le> 2 powi int k \<and> (0 \<le> x \<longrightarrow> 0 \<le> y)"
    using assms(2) by (intro to_double_bounded) simp_all
  then show ?thesis by simp
qed

lemma below_rounding: "\<bar>x\<bar> \<le> 2 ^ k \<Longrightarrow> k \<le> 1023 \<Longrightarrow> below k (to_double x)"
  using to_double_finite[of x k] unfolding below_def by blast

lemma below_neg: "below k v \<Longrightarrow> below k (js_neg v)"
  unfolding below_def by auto

lemma below_add:
  assumes "below k u" and "below k v" and "k < 1023"
  shows "below (Suc k) (js_add u v)"
proof -
  obtain a b where u: "u = Finite a" "\<bar>a\<bar> \<le> 2 ^ k" and v: "v = Finite b" "\<bar>b\<bar> \<le> 2 ^ k"
    using assms(1,2) unfolding below_def by blast
  have "\<bar>a + b\<bar> \<le> 2 ^ Suc k" using u(2) v(2) by simp
  then have "below (Suc k) (to_double (a + b))" using assms(3) by (intro below_rounding) simp_all
  then show ?thesis by (simp add: u(1) v(1))
qed

lemma below_sub:
  assumes "below k u" and "below k v" and "k < 1023"
  shows "below (Suc k) (js_sub u v)"
  unfolding js_sub_def using assms by (intro below_add below_neg)

lemma below_mul:
  assumes "below j u" and "below k v" and "j + k \<le> 1023"
  shows "below (j + k) (js_mul u v)"
proof -
  obtain a b where u: "u = Finite a" "\<bar>a\<bar> \<le> 2 ^ j" and v: "v = Finite b" "\<bar>b\<bar> \<le> 2 ^ k"
    using assms(1,2) unfolding below_def by blast
  have "\<bar>a\<bar> * \<bar>b\<bar> \<le> 2 ^ j * 2 ^ k" using u(2) v(2) by (intro mult_mono) simp_all
  then have "\<bar>a * b\<bar> \<le> 2 ^ (j + k)" by (simp add: abs_mult power_add)
  then have "below (j + k) (to_double (a * b))" using assms(3) by (rule below_rounding)
  then show ?thesis by (simp add: u(1) v(1))
qed

lemma below_div:
  assumes "below j u" and "2 powi (- int m) \<le> \<bar>b\<bar>" and "j + m \<le> 1023"
  shows "below (j + m) (js_div u (Finite b))"
proof -
  obtain a where u: "u = Finite a" "\<bar>a\<bar> \<le> 2 ^ j"
    using assms(1) unfolding below_def by blast
  have pos: "0 < (2::real) powi (- int m)" by simp
  then have "0 < \<bar>b\<bar>" using assms(2) by linarith
  then have nz: "b \<noteq> 0" by simp
  have "(2::real) powi (- int m) = 1 / 2 ^ m" by (simp add: power_int_minus inverse_eq_divide)
  then have "1 / 2 ^ m \<le> \<bar>b\<bar>" using assms(2) by simp
  then have "1 \<le> \<bar>b\<bar> * 2 ^ m" by (simp add: field_simps)
  then have inv: "1 / \<bar>b\<bar> \<le> 2 ^ m" using \<open>0 < \<bar>b\<bar>\<close> by (simp add: field_simps)
  have "\<bar>a\<bar> * (1 / \<bar>b\<bar>) \<le> 2 ^ j * 2 ^ m" using u(2) inv by (intro mult_mono) simp_all
  then have "\<bar>a / b\<bar> \<le> 2 ^ (j + m)" by (simp add: power_add)
  then have "below (j + m) (to_double (a / b))" using assms(3) by (rule below_rounding)
  then show ?thesis using nz by (simp add: u(1))
qed

lemma below_floor: "below k v \<Longrightarrow> below k (js_floor v)"
proof -
  assume "below k v"
  then obtain a where v: "v = Finite a" "\<bar>a\<bar> \<le> 2 ^ k" unfolding below_def by blast
  have "real_of_int \<lfloor>a\<rfloor> \<le> 2 ^ k" using v(2) of_int_floor_le[of a] by linarith
  moreover have "of_int (- (2 ^ k)) \<le> a" using v(2) by simp
  then have "- (2 ^ k) \<le> \<lfloor>a\<rfloor>" by (simp only: le_floor_iff)
  then have "- (2 ^ k) \<le> real_of_int \<lfloor>a\<rfloor>" by (metis of_int_le_iff of_int_minus of_int_numeral of_int_power)
  ultimately show ?thesis by (simp add: v(1) below_def abs_le_iff)
qed

lemma js_round_below: "below k v \<Longrightarrow> \<exists>n. js_round v = Finite (of_int n)"
  unfolding below_def by auto

lemma js_eq_Finite: "js_eq (Finite a) v \<longleftrightarrow> v = Finite a"
  by (cases v) auto

lemma js_eq_zero: "js_eq v (Finite 0) \<longleftrightarrow> v = Finite 0"
  by (cases v) auto

text \<open>Counters: a counter that holds an integer below \<open>2 ^ 53\<close> counts exactly.\<close>

lemma js_increment:
  assumes "- (2 ^ 53) \<le> n" and "n < 2 ^ 53"
  shows "js_add (Finite (of_int n)) (Finite 1) = Finite (of_int (n + 1))"
proof -
  have "\<bar>n + 1\<bar> \<le> 2 ^ 53" using assms by linarith
  then have "to_double (of_int (n + 1)) = Finite (of_int (n + 1))" by (rule to_double_int)
  then show ?thesis by simp
qed

lemma counter_increment:
  assumes "j < 2 ^ 53"
  shows "js_add (Finite (of_nat j)) (Finite 1) = Finite (of_nat (Suc j))"
proof -
  have "int (Suc j) \<le> int (2 ^ 53)" using assms by (simp only: of_nat_le_iff Suc_le_eq)
  then have "\<bar>int (Suc j)\<bar> \<le> 2 ^ 53" by simp
  then have "to_double (of_int (int (Suc j))) = Finite (of_int (int (Suc j)))" by (rule to_double_int)
  then show ?thesis by (simp add: add.commute)
qed

lemma counter_decrement:
  assumes "1 \<le> N" and "N \<le> 2 ^ 53"
  shows "js_sub (Finite (of_nat N)) (Finite 1) = Finite (of_nat (N - 1))"
proof -
  have "int (N - 1) \<le> int (2 ^ 53)" using assms(2) by (simp only: of_nat_le_iff; linarith)
  then have "\<bar>int (N - 1)\<bar> \<le> 2 ^ 53" by simp
  then have "to_double (of_int (int (N - 1))) = Finite (of_int (int (N - 1)))" by (rule to_double_int)
  moreover have "real (N - 1) = real N + - 1" using assms(1) by (simp add: of_nat_diff)
  ultimately show ?thesis by (simp add: js_sub_def)
qed

lemma ceiling_count:
  assumes "W \<le> 2 ^ k"
  shows "nat \<lceil>W\<rceil> \<le> 2 ^ k"
proof -
  have "W \<le> of_int (2 ^ k)" using assms by simp
  then have "\<lceil>W\<rceil> \<le> 2 ^ k" by (simp only: ceiling_le_iff)
  then have "nat \<lceil>W\<rceil> \<le> nat (2 ^ k)" by (rule nat_mono)
  moreover have "nat (2 ^ k) = 2 ^ k" by (simp add: nat_power_eq)
  ultimately show ?thesis by (simp only:)
qed

lemma counter_less:
  "j < nat \<lceil>W\<rceil> \<Longrightarrow> real j < W"
  by linarith

lemma counter_done:
  "nat \<lceil>W\<rceil> \<le> j \<Longrightarrow> \<not> real j < W"
  by linarith

lemma push_room: "length arr < 4294967295 \<Longrightarrow> push arr v = Inr (arr @ [v])"
  by (simp add: push_def)

lemma push_full: "4294967295 \<le> length arr \<Longrightarrow> push arr v = Inl RangeError"
  by (simp add: push_def)


section \<open>Rectangles\<close>

lemma area_row_skip:
  "\<not> js_le y endY \<Longrightarrow> area_row x y endY coordinates = Some (Inr coordinates)"
  by (subst area_row.simps) simp

lemma area_loop_stalls:
  assumes "area_loop x startY endX endY coordinates = Some r"
  shows "\<not> (x = Finite (2 ^ 53) \<and> startY = Finite 1 \<and> endX = Finite (2 ^ 53) \<and> endY = Finite 0)"
proof -
  define P where "P = (\<lambda>(x::number) (startY::number) (endX::number) (endY::number)
      (coordinates::Point list) (r::error + Point list).
        \<not> (x = Finite (2 ^ 53) \<and> startY = Finite 1 \<and> endX = Finite (2 ^ 53) \<and> endY = Finite 0))"
  have "P x startY endX endY coordinates r"
  proof (rule area_loop.raw_induct
      [where P = P and xa = "((((x, startY), endX), endY), coordinates)" and y = r, simplified, OF _ assms])
    fix f x startY endX endY coordinates r
    assume IH: "\<And>x startY endX endY coordinates r.
        f x startY endX endY coordinates = Some r \<Longrightarrow> P x startY endX endY coordinates r"
    assume step: "(if js_le x endX
           then case area_row x startY endY coordinates of None \<Rightarrow> None
                | Some (Inl e) \<Rightarrow> Some (Inl e)
                | Some (Inr coordinates') \<Rightarrow> f (js_add x (Finite 1)) startY endX endY coordinates'
           else Some (Inr coordinates)) = Some r"
    show "P x startY endX endY coordinates r"
      unfolding P_def
    proof
      assume "x = Finite (2 ^ 53) \<and> startY = Finite 1 \<and> endX = Finite (2 ^ 53) \<and> endY = Finite 0"
      then have "f (Finite (2 ^ 53)) (Finite 1) (Finite (2 ^ 53)) (Finite 0) coordinates = Some r"
        using step by (simp add: area_row_skip to_double_stall_numeral)
      then have "P (Finite (2 ^ 53)) (Finite 1) (Finite (2 ^ 53)) (Finite 0) coordinates r"
        by (rule IH)
      then show False by (simp add: P_def)
    qed
  qed
  then show ?thesis unfolding P_def .
qed

lemma area_row_returns:
  assumes "- (2 ^ 53) \<le> y" and "endY < 2 ^ 53"
    and "length coordinates + length [y..endY] \<le> 4294967295"
  shows "area_row x (Finite (of_int y)) (Finite (of_int endY)) coordinates =
     Some (Inr (coordinates @ map (\<lambda>y. \<lparr>point_x = x, point_y = Finite (of_int y)\<rparr>) [y..endY]))"
  using assms
proof (induction "nat (endY + 1 - y)" arbitrary: y coordinates)
  case 0
  then have "endY < y" by simp
  then show ?case by (simp add: area_row_skip)
next
  case (Suc n)
  then have le: "y \<le> endY" by linarith
  then have list: "[y..endY] = y # [y + 1..endY]" by (simp add: upto_rec1)
  have room: "length coordinates < 4294967295" using Suc.prems(3) list by simp
  have next_y: "js_add (Finite (of_int y)) (Finite 1) = Finite (of_int (y + 1))"
    using Suc.prems(1) le Suc.prems(2) by (intro js_increment) linarith+
  have "area_row x (Finite (of_int (y + 1))) (Finite (of_int endY))
        (coordinates @ [\<lparr>point_x = x, point_y = Finite (of_int y)\<rparr>]) =
      Some (Inr ((coordinates @ [\<lparr>point_x = x, point_y = Finite (of_int y)\<rparr>]) @
        map (\<lambda>y. \<lparr>point_x = x, point_y = Finite (of_int y)\<rparr>) [y + 1..endY]))"
  proof (rule Suc.hyps(1))
    show "n = nat (endY + 1 - (y + 1))" using Suc.hyps(2) by linarith
    show "- (2 ^ 53) \<le> y + 1" using Suc.prems(1) by linarith
    show "endY < 2 ^ 53" by (rule Suc.prems(2))
    show "length (coordinates @ [\<lparr>point_x = x, point_y = Finite (of_int y)\<rparr>]) + length [y + 1..endY]
        \<le> 4294967295"
      using Suc.prems(3) list by simp
  qed
  then show ?case
    using le by (subst area_row.simps) (simp only: js_le.simps of_int_le_iff if_True push_room[OF room]
      sum.case next_y list list.map append_assoc append_Cons append_Nil)
qed

lemma area_loop_returns:
  assumes "- (2 ^ 53) \<le> x" and "endX < 2 ^ 53" and "- (2 ^ 53) \<le> startY" and "endY < 2 ^ 53"
    and "length coordinates + length [x..endX] * length [startY..endY] \<le> 4294967295"
  shows "area_loop (Finite (of_int x)) (Finite (of_int startY)) (Finite (of_int endX))
        (Finite (of_int endY)) coordinates =
     Some (Inr (coordinates @
       concat (map (\<lambda>x. map (\<lambda>y. \<lparr>point_x = Finite (of_int x), point_y = Finite (of_int y)\<rparr>)
         [startY..endY]) [x..endX])))"
  using assms
proof (induction "nat (endX + 1 - x)" arbitrary: x coordinates)
  case 0
  then have "endX < x" by simp
  then show ?case by (subst area_loop.simps) simp
next
  case (Suc n)
  let ?row = "\<lambda>x. map (\<lambda>y. \<lparr>point_x = Finite (of_int x), point_y = Finite (of_int y)\<rparr>) [startY..endY]"
  have le: "x \<le> endX" using Suc.hyps(2) by linarith
  then have list: "[x..endX] = x # [x + 1..endX]" by (simp add: upto_rec1)
  have count: "length coordinates + (length [startY..endY] + length [x + 1..endX] * length [startY..endY])
      \<le> 4294967295"
    using Suc.prems(5) unfolding list by simp
  have row: "area_row (Finite (of_int x)) (Finite (of_int startY)) (Finite (of_int endY)) coordinates =
      Some (Inr (coordinates @ ?row x))"
    using Suc.prems(3,4) count by (intro area_row_returns) linarith+
  have next_x: "js_add (Finite (of_int x)) (Finite 1) = Finite (of_int (x + 1))"
    using Suc.prems(1) le Suc.prems(2) by (intro js_increment) linarith+
  have "area_loop (Finite (of_int (x + 1))) (Finite (of_int startY)) (Finite (of_int endX))
        (Finite (of_int endY)) (coordinates @ ?row x) =
      Some (Inr ((coordinates @ ?row x) @ concat (map ?row [x + 1..endX])))"
  proof (rule Suc.hyps(1))
    show "n = nat (endX + 1 - (x + 1))" using Suc.hyps(2) by linarith
    show "- (2 ^ 53) \<le> x + 1" using Suc.prems(1) by linarith
    show "endX < 2 ^ 53" by (rule Suc.prems(2))
    show "- (2 ^ 53) \<le> startY" by (rule Suc.prems(3))
    show "endY < 2 ^ 53" by (rule Suc.prems(4))
    show "length (coordinates @ ?row x) + length [x + 1..endX] * length [startY..endY] \<le> 4294967295"
      using count by (simp only: length_append length_map add.assoc)
  qed
  then show ?case
    using le by (subst area_loop.simps) (simp only: js_le.simps of_int_le_iff if_True row
      option.case sum.case next_x list list.map concat.simps append_assoc)
qed

lemma area_row_overflows:
  assumes "- (2 ^ 53) \<le> y" and "endY < 2 ^ 53"
    and "4294967295 < length coordinates + length [y..endY]"
    and "length coordinates \<le> 4294967295"
  shows "area_row x (Finite (of_int y)) (Finite (of_int endY)) coordinates = Some (Inl RangeError)"
  using assms
proof (induction "4294967295 - length coordinates" arbitrary: y coordinates)
  case 0
  then have full: "4294967295 \<le> length coordinates" by simp
  have "0 < length [y..endY]" using 0 by simp
  then have le: "y \<le> endY" by simp
  show ?case
    using le by (subst area_row.simps) (simp only: js_le.simps of_int_le_iff if_True push_full[OF full]
      sum.case)
next
  case (Suc n)
  then have room: "length coordinates < 4294967295" by simp
  have "1 < length [y..endY]" using Suc.prems(3) room by simp
  then have le: "y < endY" by simp
  then have list: "[y..endY] = y # [y + 1..endY]" by (simp add: upto_rec1)
  have next_y: "js_add (Finite (of_int y)) (Finite 1) = Finite (of_int (y + 1))"
    using Suc.prems(1) le Suc.prems(2) by (intro js_increment) linarith+
  have "area_row x (Finite (of_int (y + 1))) (Finite (of_int endY))
        (coordinates @ [\<lparr>point_x = x, point_y = Finite (of_int y)\<rparr>]) = Some (Inl RangeError)"
  proof (rule Suc.hyps(1))
    show "n = 4294967295 - length (coordinates @ [\<lparr>point_x = x, point_y = Finite (of_int y)\<rparr>])"
      using Suc.hyps(2) by simp
    show "- (2 ^ 53) \<le> y + 1" using Suc.prems(1) by linarith
    show "endY < 2 ^ 53" by (rule Suc.prems(2))
    show "4294967295 < length (coordinates @ [\<lparr>point_x = x, point_y = Finite (of_int y)\<rparr>])
        + length [y + 1..endY]"
      using Suc.prems(3) list by simp
    show "length (coordinates @ [\<lparr>point_x = x, point_y = Finite (of_int y)\<rparr>]) \<le> 4294967295"
      using room by simp
  qed
  moreover have "y \<le> endY" using le by simp
  ultimately show ?case
    by (subst area_row.simps) (simp only: js_le.simps of_int_le_iff if_True push_room[OF room]
      sum.case next_y)
qed

lemma point_rows_product:
  "concat (map (\<lambda>x. map (\<lambda>y. \<lparr>point_x = Finite (of_int x), point_y = Finite (of_int y)\<rparr>) ys) xs) =
     map (\<lambda>(x, y). \<lparr>point_x = Finite (of_int x), point_y = Finite (of_int y)\<rparr>) (List.product xs ys)"
  by (induction xs) simp_all

lemma point_inj: "inj (\<lambda>(x::int, y::int). \<lparr>point_x = Finite (of_int x), point_y = Finite (of_int y)\<rparr>)"
  by (rule injI) (simp add: split_beta prod_eq_iff)

lemma point_rows_distinct:
  assumes "distinct xs" "distinct ys"
  shows "distinct (concat (map (\<lambda>x. map (\<lambda>y. \<lparr>point_x = Finite (of_int x), point_y = Finite (of_int y)\<rparr>) ys) xs))"
proof -
  have "distinct (List.product xs ys)" using assms by (rule distinct_product)
  then have "distinct (map (\<lambda>(x, y). \<lparr>point_x = Finite (of_int x), point_y = Finite (of_int y)\<rparr>)
      (List.product xs ys))"
    using point_inj by (simp only: distinct_map) (blast intro: inj_on_subset)
  then show ?thesis by (simp only: point_rows_product)
qed

lemma point_rows_set:
  "set (concat (map (\<lambda>x. map (\<lambda>y. \<lparr>point_x = Finite (of_int x), point_y = Finite (of_int y)\<rparr>) ys) xs)) =
     {\<lparr>point_x = Finite (of_int x), point_y = Finite (of_int y)\<rparr> | x y. x \<in> set xs \<and> y \<in> set ys}"
proof -
  have "set (concat (map (\<lambda>x. map (\<lambda>y. \<lparr>point_x = Finite (of_int x), point_y = Finite (of_int y)\<rparr>) ys) xs)) =
      (\<lambda>(x, y). \<lparr>point_x = Finite (of_int x), point_y = Finite (of_int y)\<rparr>) ` (set xs \<times> set ys)"
    by (simp only: point_rows_product set_map set_product)
  also have "\<dots> = {\<lparr>point_x = Finite (of_int x), point_y = Finite (of_int y)\<rparr> | x y. x \<in> set xs \<and> y \<in> set ys}"
    by (rule set_eqI) (simp add: image_iff split_beta, metis fst_conv snd_conv)
  finally show ?thesis .
qed

lemma getAreaCoordinates_stalls:
  "getAreaCoordinates (Finite (2 ^ 53)) (Finite 1) (Finite (2 ^ 53)) (Finite 0) = None"
proof (cases "getAreaCoordinates (Finite (2 ^ 53)) (Finite 1) (Finite (2 ^ 53)) (Finite 0)")
  case None
  then show ?thesis .
next
  case (Some r)
  then show ?thesis
    using area_loop_stalls[of "Finite (2 ^ 53)" "Finite 1" "Finite (2 ^ 53)" "Finite 0" "[]" r]
    by (simp add: getAreaCoordinates_def)
qed

lemma getAreaCoordinates_full:
  "getAreaCoordinates (Finite 0) (Finite 0) (Finite 0) (Finite 4294967295) = Some (Inl RangeError)"
proof -
  have "area_row (Finite 0) (Finite (of_int 0)) (Finite (of_int 4294967295)) [] = Some (Inl RangeError)"
    by (rule area_row_overflows) simp_all
  then have "area_row (Finite 0) (Finite 0) (Finite 4294967295) [] = Some (Inl RangeError)" by simp
  then show ?thesis
    unfolding getAreaCoordinates_def by (subst area_loop.simps) simp
qed

lemma getAreaCoordinates_half:
  "getAreaCoordinates (Finite (1 / 2)) (Finite 0) (Finite 1) (Finite 0) =
     Some (Inr [\<lparr>point_x = Finite (1 / 2), point_y = Finite 0\<rparr>])"
proof -
  have row: "area_row (Finite (1 / 2)) (Finite 0) (Finite 0) [] =
      Some (Inr [\<lparr>point_x = Finite (1 / 2), point_y = Finite 0\<rparr>])"
    by (subst area_row.simps) (simp add: push_def area_row_skip)
  have last: "area_loop (Finite (3 / 2)) (Finite 0) (Finite 1) (Finite 0) arr = Some (Inr arr)" for arr
    by (subst area_loop.simps) simp
  show ?thesis
    unfolding getAreaCoordinates_def
    by (subst area_loop.simps) (simp add: row to_double_three_halves last)
qed

text \<open>
  Three calls of \<open>getAreaCoordinates\<close> that do not return the integer pairs of their
  rectangle. From \<open>(2 ^ 53, 1)\<close> to
  \<open>(2 ^ 53, 0)\<close> the range of \<open>y\<close> is reversed, so nothing is pushed, but the outer loop
  never ends: \<open>x++\<close> leaves \<open>2 ^ 53\<close> where it is, and \<open>x <= endX\<close> stays true. From
  \<open>(0, 0)\<close> to \<open>(0, 4294967295)\<close> the rectangle has \<open>2 ^ 32\<close> points, one more than an
  array holds: the last \<open>push\<close> raises a \<open>RangeError\<close>. From \<open>(1 / 2, 0)\<close> to
  \<open>(1, 0)\<close> the list is the single point \<open>(1 / 2, 0)\<close>: \<open>x\<close> starts at the bound
  itself and never meets the integer \<open>1\<close>.
\<close>

theorem getAreaCoordinates_unbounded:
  "getAreaCoordinates (Finite (2 ^ 53)) (Finite 1) (Finite (2 ^ 53)) (Finite 0) = None
   \<and> getAreaCoordinates (Finite 0) (Finite 0) (Finite 0) (Finite 4294967295) = Some (Inl RangeError)
   \<and> getAreaCoordinates (Finite (1 / 2)) (Finite 0) (Finite 1) (Finite 0) =
       Some (Inr [\<lparr>point_x = Finite (1 / 2), point_y = Finite 0\<rparr>])"
  by (intro conjI) (rule getAreaCoordinates_stalls getAreaCoordinates_full getAreaCoordinates_half)+

text \<open>
  C4. For integer bounds below \<open>2 ^ 53\<close> in absolute value and a rectangle of at most
  \<open>2 ^ 32 - 1\<close> points, \<open>getAreaCoordinates\<close> returns the points of the rectangle from
  \<open>startX\<close> to \<open>endX\<close> and from \<open>startY\<close> to \<open>endY\<close>, bounds included: exactly the
  integer pairs in it, \<open>x\<close> ascending in the outer loop and \<open>y\<close> ascending in the inner
  one, every point once. When a range is reversed the list is empty. From \<open>(0, 0)\<close> to
  \<open>(2, 1)\<close> it returns six points.
\<close>

theorem getAreaCoordinates_rectangle:
  assumes "\<bar>startX\<bar> < 2 ^ 53" and "\<bar>startY\<bar> < 2 ^ 53" and "\<bar>endX\<bar> < 2 ^ 53" and "\<bar>endY\<bar> < 2 ^ 53"
    and "length [startX..endX] * length [startY..endY] \<le> 4294967295"
  shows "\<exists>r. getAreaCoordinates (Finite (of_int startX)) (Finite (of_int startY))
            (Finite (of_int endX)) (Finite (of_int endY)) = Some (Inr r)
     \<and> r = concat (map (\<lambda>x. map (\<lambda>y. \<lparr>point_x = Finite (of_int x), point_y = Finite (of_int y)\<rparr>)
               [startY..endY]) [startX..endX])
     \<and> set r = {\<lparr>point_x = Finite (of_int x), point_y = Finite (of_int y)\<rparr> | x y.
               startX \<le> x \<and> x \<le> endX \<and> startY \<le> y \<and> y \<le> endY}
     \<and> distinct r
     \<and> (endX < startX \<or> endY < startY \<longrightarrow> r = [])
     \<and> getAreaCoordinates (Finite 0) (Finite 0) (Finite 2) (Finite 1) =
         Some (Inr [\<lparr>point_x = Finite 0, point_y = Finite 0\<rparr>, \<lparr>point_x = Finite 0, point_y = Finite 1\<rparr>,
                    \<lparr>point_x = Finite 1, point_y = Finite 0\<rparr>, \<lparr>point_x = Finite 1, point_y = Finite 1\<rparr>,
                    \<lparr>point_x = Finite 2, point_y = Finite 0\<rparr>, \<lparr>point_x = Finite 2, point_y = Finite 1\<rparr>])"
proof -
  let ?rows = "\<lambda>xs ys. concat (map (\<lambda>x. map (\<lambda>y. \<lparr>point_x = Finite (of_int x), point_y = Finite (of_int y)\<rparr>) ys) xs)"
  have "area_loop (Finite (of_int startX)) (Finite (of_int startY)) (Finite (of_int endX))
        (Finite (of_int endY)) [] = Some (Inr ([] @ ?rows [startX..endX] [startY..endY]))"
  proof (rule area_loop_returns)
    show "- (2 ^ 53) \<le> startX" using assms(1) by linarith
    show "endX < 2 ^ 53" using assms(3) by linarith
    show "- (2 ^ 53) \<le> startY" using assms(2) by linarith
    show "endY < 2 ^ 53" using assms(4) by linarith
    show "length ([]::Point list) + length [startX..endX] * length [startY..endY] \<le> 4294967295"
      using assms(5) by (simp only: list.size add_0)
  qed
  then have list: "getAreaCoordinates (Finite (of_int startX)) (Finite (of_int startY))
        (Finite (of_int endX)) (Finite (of_int endY)) = Some (Inr (?rows [startX..endX] [startY..endY]))"
    by (simp only: getAreaCoordinates_def append_Nil)
  have members: "set (?rows [startX..endX] [startY..endY]) =
      {\<lparr>point_x = Finite (of_int x), point_y = Finite (of_int y)\<rparr> | x y.
         startX \<le> x \<and> x \<le> endX \<and> startY \<le> y \<and> y \<le> endY}"
    by (simp only: point_rows_set set_upto atLeastAtMost_iff conj_assoc)
  have once: "distinct (?rows [startX..endX] [startY..endY])"
    by (rule point_rows_distinct) simp_all
  have reversed: "endX < startX \<or> endY < startY \<longrightarrow> ?rows [startX..endX] [startY..endY] = []"
    by auto
  have "area_loop (Finite (of_int 0)) (Finite (of_int 0)) (Finite (of_int 2)) (Finite (of_int 1)) [] =
      Some (Inr ([] @ ?rows [0..2] [0..1]))"
    by (rule area_loop_returns) simp_all
  then have example: "getAreaCoordinates (Finite 0) (Finite 0) (Finite 2) (Finite 1) =
         Some (Inr [\<lparr>point_x = Finite 0, point_y = Finite 0\<rparr>, \<lparr>point_x = Finite 0, point_y = Finite 1\<rparr>,
                    \<lparr>point_x = Finite 1, point_y = Finite 0\<rparr>, \<lparr>point_x = Finite 1, point_y = Finite 1\<rparr>,
                    \<lparr>point_x = Finite 2, point_y = Finite 0\<rparr>, \<lparr>point_x = Finite 2, point_y = Finite 1\<rparr>])"
    by (simp add: getAreaCoordinates_def upto_rec1)
  show ?thesis
    using list members once reversed example by blast
qed


theorem getAreaCoordinates_rectangle_witness:
  "\<bar>0::int\<bar> < 2 ^ 53 \<and> \<bar>1::int\<bar> < 2 ^ 53 \<and> length [0..1::int] * length [0..0::int] \<le> 4294967295
   \<and> getAreaCoordinates (Finite 0) (Finite 0) (Finite 1) (Finite 0) =
       Some (Inr [\<lparr>point_x = Finite 0, point_y = Finite 0\<rparr>, \<lparr>point_x = Finite 1, point_y = Finite 0\<rparr>])"
proof -
  have bounds: "\<bar>0::int\<bar> < 2 ^ 53" "\<bar>1::int\<bar> < 2 ^ 53" by simp_all
  have count: "length [0..1::int] * length [0..0::int] \<le> 4294967295" by simp
  obtain r where "getAreaCoordinates (Finite (of_int 0)) (Finite (of_int 0)) (Finite (of_int 1)) (Finite (of_int 0))
        = Some (Inr r)"
    and "r = concat (map (\<lambda>x. map (\<lambda>y. \<lparr>point_x = Finite (of_int x), point_y = Finite (of_int y)\<rparr>)
               [0..0]) [0..1])"
    using getAreaCoordinates_rectangle [OF bounds(1) bounds(1) bounds(2) bounds(1) count] by blast
  then have "getAreaCoordinates (Finite 0) (Finite 0) (Finite 1) (Finite 0) =
       Some (Inr [\<lparr>point_x = Finite 0, point_y = Finite 0\<rparr>, \<lparr>point_x = Finite 1, point_y = Finite 0\<rparr>])"
    by (simp add: upto_rec1)
  then show ?thesis using bounds count by simp
qed


section \<open>Rendering\<close>

lemma render_cube_frame [simp]:
  "cubeRegistry (render_cube cs yo geo g entry s) = cubeRegistry s"
  "excludedCoordinates (render_cube cs yo geo g entry s) = excludedCoordinates s"
  "sceneGroups (render_cube cs yo geo g entry s) = sceneGroups s"
  "scene_children (render_cube cs yo geo g entry s) = scene_children s"
  "geometries (render_cube cs yo geo g entry s) = geometries s"
  by (simp_all add: render_cube_def createMaterialWithTexture_def group_add_def Let_def
      split: prod.splits)

lemma render_fold_frame [simp]:
  "cubeRegistry (fold (render_cube cs yo geo g) entries s) = cubeRegistry s"
  "excludedCoordinates (fold (render_cube cs yo geo g) entries s) = excludedCoordinates s"
  "sceneGroups (fold (render_cube cs yo geo g) entries s) = sceneGroups s"
  "scene_children (fold (render_cube cs yo geo g) entries s) = scene_children s"
  "geometries (fold (render_cube cs yo geo g) entries s) = geometries s"
  by (induction entries arbitrary: s) simp_all

lemma render_cube_excluded:
  "key \<in> set (excludedCoordinates s) \<Longrightarrow> render_cube cs yo geo g (key, cubeInfo) s = s"
  by (simp add: render_cube_def)

lemma render_cube_other_group:
  "g' \<noteq> g \<Longrightarrow> groups (render_cube cs yo geo g entry s) g' = groups s g'"
  by (simp add: render_cube_def createMaterialWithTexture_def group_add_def Let_def
      split: prod.splits)

lemma render_cube_visible:
  assumes "key \<notin> set (excludedCoordinates s)"
  shows "\<exists>cube. children (groups (render_cube cs yo geo g (key, cubeInfo) s) g)
               = children (groups s g) @ [cube]
           \<and> material cube = next_object s
           \<and> geometry cube = geo
           \<and> mesh_name cube = ''FloorCube_'' @ kind_text (type cubeInfo) @ ''_''
                 @ number_text (pos_x (position cubeInfo)) @ ''_''
                 @ number_text (pos_y (position cubeInfo))"
    and "materials (render_cube cs yo geo g (key, cubeInfo) s) =
           (materials s)(next_object s :=
              \<lparr>texture = (case type cubeInfo of Room \<Rightarrow> room_floor | Hallway \<Rightarrow> hallway_floor
                           | Overlap \<Rightarrow> hallway_floor),
               material_disposed = False\<rparr>)"
    and "next_object (render_cube cs yo geo g (key, cubeInfo) s) = Suc (next_object s)"
  using assms
  by (simp_all add: render_cube_def createMaterialWithTexture_def group_add_def Let_def
      split: cube_kind.splits)


lemma visible_Cons:
  "visible s ((key, cubeInfo) # entries) =
     (if key \<in> set (excludedCoordinates s) then visible s entries
      else (key, cubeInfo) # visible s entries)"
  by (simp add: visible_def)

lemma visible_cong: "excludedCoordinates s' = excludedCoordinates s \<Longrightarrow> visible s' = visible s"
  by (simp add: visible_def fun_eq_iff)

lemma render_cube_drawn:
  assumes "key \<notin> set (excludedCoordinates s)" and "materials_allocated s g"
  shows "drawn (render_cube cs yo geo g (key, cubeInfo) s) g = drawn s g @ [expected (key, cubeInfo)]"
    and "materials_allocated (render_cube cs yo geo g (key, cubeInfo) s) g"
proof -
  let ?s1 = "render_cube cs yo geo g (key, cubeInfo) s"
  obtain cube where cube: "children (groups ?s1 g) = children (groups s g) @ [cube]"
      "material cube = next_object s"
      "mesh_name cube = ''FloorCube_'' @ kind_text (type cubeInfo) @ ''_''
                 @ number_text (pos_x (position cubeInfo)) @ ''_''
                 @ number_text (pos_y (position cubeInfo))"
    using render_cube_visible(1)[OF assms(1), of cs yo geo g cubeInfo] by blast
  note mats = render_cube_visible(2)[OF assms(1), of cs yo geo g cubeInfo]
  note nxt = render_cube_visible(3)[OF assms(1), of cs yo geo g cubeInfo]
  have old: "texture (materials ?s1 (material c)) = texture (materials s (material c))"
    if "c \<in> set (children (groups s g))" for c
    using that assms(2) by (auto simp add: mats materials_allocated_def)
  show "drawn ?s1 g = drawn s g @ [expected (key, cubeInfo)]"
    using old by (simp add: drawn_def cube expected_def) (simp add: mats)
  show "materials_allocated ?s1 g"
    using assms(2) by (auto simp add: materials_allocated_def cube nxt)
qed

lemma render_fold_drawn:
  assumes "materials_allocated s g"
  shows "drawn (fold (render_cube cs yo geo g) entries s) g = drawn s g @ map expected (visible s entries)"
  using assms
proof (induction entries arbitrary: s)
  case Nil
  then show ?case by (simp add: visible_def)
next
  case (Cons entry entries)
  obtain key cubeInfo where entry: "entry = (key, cubeInfo)" by (cases entry)
  show ?case
  proof (cases "key \<in> set (excludedCoordinates s)")
    case True
    then show ?thesis
      using Cons.IH[OF Cons.prems] by (simp add: entry render_cube_excluded visible_Cons)
  next
    case False
    let ?s1 = "render_cube cs yo geo g (key, cubeInfo) s"
    have "drawn (fold (render_cube cs yo geo g) entries ?s1) g
            = drawn ?s1 g @ map expected (visible ?s1 entries)"
      by (rule Cons.IH) (rule render_cube_drawn(2)[OF False Cons.prems])
    moreover have "visible ?s1 = visible s" by (rule visible_cong) simp
    ultimately show ?thesis
      using False by (simp add: entry visible_Cons render_cube_drawn(1)[OF False Cons.prems])
  qed
qed


lemma renderAllCubes_existing:
  assumes "map_of (sceneGroups s) scene = Some g"
  shows "renderAllCubes getCubeSize scene options s =
     (g, fold (render_cube (option_cubeSize getCubeSize options) (option_yOffset options) (next_object s) g)
           (cubeRegistry s) (prepared (option_cubeSize getCubeSize options) g s))"
  using assms
  by (simp add: renderAllCubes_def Let_def option_cubeSize_def option_yOffset_def prepared_def
      new_BoxGeometry_def group_clear_def)

lemma renderAllCubes_first:
  assumes "map_of (sceneGroups s) scene = None"
  shows "renderAllCubes getCubeSize scene options s =
     (next_object s,
      fold (render_cube (option_cubeSize getCubeSize options) (option_yOffset options)
              (Suc (next_object s)) (next_object s))
           (cubeRegistry s)
           (prepared (option_cubeSize getCubeSize options) (next_object s) (attach_group scene s)))"
  using assms
  by (simp add: renderAllCubes_def Let_def option_cubeSize_def option_yOffset_def prepared_def
      new_BoxGeometry_def group_clear_def attach_group_def new_Group_def set_group_name_def
      scene_add_def)

lemma prepared_frame [simp]:
  "cubeRegistry (prepared cs g s) = cubeRegistry s"
  "excludedCoordinates (prepared cs g s) = excludedCoordinates s"
  "sceneGroups (prepared cs g s) = sceneGroups s"
  "scene_children (prepared cs g s) = scene_children s"
  "children (groups (prepared cs g s) g) = []"
  by (simp_all add: prepared_def new_BoxGeometry_def group_clear_def)

lemma attach_group_frame [simp]:
  "cubeRegistry (attach_group scene s) = cubeRegistry s"
  "excludedCoordinates (attach_group scene s) = excludedCoordinates s"
  "sceneGroups (attach_group scene s) = AList.update scene (next_object s) (sceneGroups s)"
  "scene_children (attach_group scene s) =
     (scene_children s)(scene := scene_children s scene @ [next_object s])"
  by (simp_all add: attach_group_def new_Group_def set_group_name_def scene_add_def)

lemma renderAllCubes_frame:
  "cubeRegistry (snd (renderAllCubes getCubeSize scene options s)) = cubeRegistry s"
  "excludedCoordinates (snd (renderAllCubes getCubeSize scene options s)) = excludedCoordinates s"
  by (cases "map_of (sceneGroups s) scene"; simp add: renderAllCubes_existing renderAllCubes_first)+

lemma renderAllCubes_drawn:
  "drawn (snd (renderAllCubes getCubeSize scene options s)) (fst (renderAllCubes getCubeSize scene options s))
     = map expected (visible s (cubeRegistry s))"
proof (cases "map_of (sceneGroups s) scene")
  case None
  let ?p = "prepared (option_cubeSize getCubeSize options) (next_object s) (attach_group scene s)"
  have "materials_allocated ?p (next_object s)" by (simp add: materials_allocated_def)
  moreover have "visible ?p = visible s" by (rule visible_cong) simp
  moreover have "drawn ?p (next_object s) = []" by (simp add: drawn_def)
  ultimately show ?thesis
    by (simp add: renderAllCubes_first[OF None] render_fold_drawn)
next
  case (Some g)
  let ?p = "prepared (option_cubeSize getCubeSize options) g s"
  have "materials_allocated ?p g" by (simp add: materials_allocated_def)
  moreover have "visible ?p = visible s" by (rule visible_cong) simp
  moreover have "drawn ?p g = []" by (simp add: drawn_def)
  ultimately show ?thesis
    by (simp add: renderAllCubes_existing[OF Some] render_fold_drawn)
qed

lemma renderAllCubes_group:
  "map_of (sceneGroups (snd (renderAllCubes getCubeSize scene options s))) scene
     = Some (fst (renderAllCubes getCubeSize scene options s))"
  by (cases "map_of (sceneGroups s) scene")
     (simp_all add: renderAllCubes_existing renderAllCubes_first update_conv')

lemma update_fresh_key: "map_of al k = None \<Longrightarrow> AList.update k v al = al @ [(k, v)]"
  by (induction al) (auto split: if_splits)

lemma renderAllCubes_attach:
  "map_of (sceneGroups s) scene = Some g \<Longrightarrow>
     fst (renderAllCubes getCubeSize scene options s) = g
     \<and> sceneGroups (snd (renderAllCubes getCubeSize scene options s)) = sceneGroups s
     \<and> scene_children (snd (renderAllCubes getCubeSize scene options s)) = scene_children s"
  "map_of (sceneGroups s) scene = None \<Longrightarrow>
     fst (renderAllCubes getCubeSize scene options s) = next_object s
     \<and> sceneGroups (snd (renderAllCubes getCubeSize scene options s)) = sceneGroups s @ [(scene, next_object s)]
     \<and> scene_children (snd (renderAllCubes getCubeSize scene options s)) =
         (scene_children s)(scene := scene_children s scene @ [next_object s])"
  by (simp_all add: renderAllCubes_existing renderAllCubes_first update_fresh_key)

lemma drawn_length: "length (drawn s g) = length (children (groups s g))"
  by (simp add: drawn_def)

lemma example_registry:
  "cubeRegistry example =
     [(''0,0'', \<lparr>position = \<lparr>pos_x = 0, pos_y = 0\<rparr>, color = 1, type = Room\<rparr>),
      (''1,0'', \<lparr>position = \<lparr>pos_x = 1, pos_y = 0\<rparr>, color = 0x800080, type = Overlap\<rparr>),
      (''4,0'', \<lparr>position = \<lparr>pos_x = 4, pos_y = 0\<rparr>, color = 1, type = Room\<rparr>),
      (''2,0'', \<lparr>position = \<lparr>pos_x = 2, pos_y = 0\<rparr>, color = 2, type = Hallway\<rparr>)]"
  "excludedCoordinates example = [''4,0'']"
  "sceneGroups example = []"
  by (simp_all add: example_def fresh_def setExcludedCoordinates_def set_add_def register_coord_def
      getCubeKey_def number_text_def digits_of.simps)

text \<open>
  C3. After \<open>renderAllCubes\<close> the group of the scene holds one mesh for each record of the
  registry whose key is not excluded when rendering, in the order of the registry, and none
  for an excluded record, also when the record was there before the exclusion. The
  material of the mesh has the tag \<open>hallway-floor\<close> for an overlap and for a hallway, and
  \<open>room-floor\<close> for a room.
\<close>

theorem renderAllCubes_drawables:
  assumes "renderAllCubes getCubeSize scene options s = (g, s')"
  shows "map (\<lambda>cube. (mesh_name cube, texture (materials s' (material cube)))) (children (groups s' g)) =
         map (\<lambda>(key, cubeInfo).
                (''FloorCube_'' @ kind_text (type cubeInfo) @ ''_''
                   @ number_text (pos_x (position cubeInfo)) @ ''_''
                   @ number_text (pos_y (position cubeInfo)),
                 case type cubeInfo of Room \<Rightarrow> room_floor | Hallway \<Rightarrow> hallway_floor
                 | Overlap \<Rightarrow> hallway_floor))
             (filter (\<lambda>(key, cubeInfo). key \<notin> set (excludedCoordinates s)) (cubeRegistry s))"
proof -
  have "drawn s' g = map expected (visible s (cubeRegistry s))"
    using renderAllCubes_drawn[of getCubeSize scene options s] assms by simp
  then show ?thesis
    by (simp only: drawn_def visible_def expected_def [abs_def])
qed

theorem renderAllCubes_drawables_witness:
  "renderAllCubes 1 0 no_options example =
     (fst (renderAllCubes 1 0 no_options example), snd (renderAllCubes 1 0 no_options example))
   \<and> map (\<lambda>cube. (mesh_name cube,
                   texture (materials (snd (renderAllCubes 1 0 no_options example)) (material cube))))
        (children (groups (snd (renderAllCubes 1 0 no_options example))
                          (fst (renderAllCubes 1 0 no_options example))))
     = [(''FloorCube_room_0_0'', room_floor), (''FloorCube_overlap_1_0'', hallway_floor),
        (''FloorCube_hallway_2_0'', hallway_floor)]"
  using renderAllCubes_drawables [of 1 0 no_options example
      "fst (renderAllCubes 1 0 no_options example)" "snd (renderAllCubes 1 0 no_options example)"]
  by (simp add: example_registry number_text_def digits_of.simps)

text \<open>
  C6. Rendering again does not accumulate. The second of two calls of \<open>renderAllCubes\<close>
  for a scene returns the group of the first, leaves the map from scenes to groups and the
  children of the scenes as they are, and the group holds as many meshes after the second
  call as after the first: one for each record that is not excluded. The first call makes
  a group and adds it to the scene only when the scene has none yet.
\<close>

theorem renderAllCubes_idempotent:
  assumes "renderAllCubes getCubeSize scene options s = (g1, s1)"
    and "renderAllCubes getCubeSize' scene options' s1 = (g2, s2)"
  shows "g2 = g1
       \<and> sceneGroups s2 = sceneGroups s1
       \<and> scene_children s2 = scene_children s1
       \<and> length (children (groups s2 g2)) = length (children (groups s1 g1))
       \<and> length (children (groups s1 g1)) =
           length (filter (\<lambda>(key, cubeInfo). key \<notin> set (excludedCoordinates s)) (cubeRegistry s))
       \<and> (case map_of (sceneGroups s) scene of
             None \<Rightarrow> g1 = next_object s
                    \<and> sceneGroups s1 = sceneGroups s @ [(scene, g1)]
                    \<and> scene_children s1 = (scene_children s)(scene := scene_children s scene @ [g1])
           | Some g \<Rightarrow> g1 = g \<and> sceneGroups s1 = sceneGroups s \<and> scene_children s1 = scene_children s)"
proof -
  have found: "map_of (sceneGroups s1) scene = Some g1"
    using renderAllCubes_group[of getCubeSize scene options s] assms(1) by simp
  have second: "g2 = g1 \<and> sceneGroups s2 = sceneGroups s1 \<and> scene_children s2 = scene_children s1"
    using renderAllCubes_attach(1)[OF found, of getCubeSize' options'] assms(2) by simp
  have frame: "cubeRegistry s1 = cubeRegistry s" "excludedCoordinates s1 = excludedCoordinates s"
    using renderAllCubes_frame[of getCubeSize scene options s] assms(1) by simp_all
  have count1: "length (children (groups s1 g1)) = length (visible s (cubeRegistry s))"
    using renderAllCubes_drawn[of getCubeSize scene options s] assms(1)
    by (simp add: drawn_length [symmetric])
  have "length (children (groups s2 g2)) = length (visible s1 (cubeRegistry s1))"
    using renderAllCubes_drawn[of getCubeSize' scene options' s1] assms(2)
    by (simp add: drawn_length [symmetric])
  then have count2: "length (children (groups s2 g2)) = length (visible s (cubeRegistry s))"
    by (simp add: frame visible_def)
  have first: "(case map_of (sceneGroups s) scene of
             None \<Rightarrow> g1 = next_object s
                    \<and> sceneGroups s1 = sceneGroups s @ [(scene, g1)]
                    \<and> scene_children s1 = (scene_children s)(scene := scene_children s scene @ [g1])
           | Some g \<Rightarrow> g1 = g \<and> sceneGroups s1 = sceneGroups s \<and> scene_children s1 = scene_children s)"
  proof (cases "map_of (sceneGroups s) scene")
    case None
    then show ?thesis
      using renderAllCubes_attach(2)[OF None, of getCubeSize options] assms(1) by simp
  next
    case (Some g)
    then show ?thesis
      using renderAllCubes_attach(1)[OF Some, of getCubeSize options] assms(1) by simp
  qed
  show ?thesis
    using second count1 count2 first by (simp add: visible_def)
qed

theorem renderAllCubes_idempotent_witness:
  "renderAllCubes 1 0 no_options example =
     (fst (renderAllCubes 1 0 no_options example), snd (renderAllCubes 1 0 no_options example))
   \<and> renderAllCubes 1 0 no_options (snd (renderAllCubes 1 0 no_options example)) =
     (fst (renderAllCubes 1 0 no_options (snd (renderAllCubes 1 0 no_options example))),
      snd (renderAllCubes 1 0 no_options (snd (renderAllCubes 1 0 no_options example))))
   \<and> fst (renderAllCubes 1 0 no_options (snd (renderAllCubes 1 0 no_options example)))
       = fst (renderAllCubes 1 0 no_options example)
   \<and> length (children (groups (snd (renderAllCubes 1 0 no_options (snd (renderAllCubes 1 0 no_options example))))
                (fst (renderAllCubes 1 0 no_options (snd (renderAllCubes 1 0 no_options example)))))) = 3
   \<and> length (children (groups (snd (renderAllCubes 1 0 no_options example))
                (fst (renderAllCubes 1 0 no_options example)))) = 3"
proof -
  let ?r1 = "renderAllCubes 1 0 no_options example"
  let ?r2 = "renderAllCubes 1 0 no_options (snd ?r1)"
  have h1: "?r1 = (fst ?r1, snd ?r1)" by simp
  have h2: "?r2 = (fst ?r2, snd ?r2)" by simp
  note twice = renderAllCubes_idempotent [OF h1 h2]
  have same: "fst ?r2 = fst ?r1"
    using twice by (elim conjE)
  have again: "length (children (groups (snd ?r2) (fst ?r2))) = length (children (groups (snd ?r1) (fst ?r1)))"
    using twice by (elim conjE)
  have count: "length (children (groups (snd ?r1) (fst ?r1))) =
      length (filter (\<lambda>(key, cubeInfo). key \<notin> set (excludedCoordinates example)) (cubeRegistry example))"
    using twice by (elim conjE)
  have three: "length (filter (\<lambda>(key, cubeInfo). key \<notin> set (excludedCoordinates example)) (cubeRegistry example)) = 3"
    by (simp add: example_registry)
  show ?thesis
  proof (intro conjI)
    show "?r1 = (fst ?r1, snd ?r1)" by (rule h1)
    show "?r2 = (fst ?r2, snd ?r2)" by (rule h2)
    show "fst ?r2 = fst ?r1" by (rule same)
    show "length (children (groups (snd ?r2) (fst ?r2))) = 3" by (simp only: again count three)
    show "length (children (groups (snd ?r1) (fst ?r1))) = 3" by (simp only: count three)
  qed
qed

text \<open>
  C9. \<open>renderAllCubes\<close> changes neither the registry nor the exclusion set.
\<close>

theorem renderAllCubes_preserves_registry:
  "cubeRegistry (snd (renderAllCubes getCubeSize scene options s)) = cubeRegistry s
   \<and> excludedCoordinates (snd (renderAllCubes getCubeSize scene options s)) = excludedCoordinates s"
  by (simp add: renderAllCubes_frame)

section \<open>Disposal\<close>

lemma dispose_mesh_frame [simp]:
  "cubeRegistry (dispose_mesh child s) = cubeRegistry s"
  "excludedCoordinates (dispose_mesh child s) = excludedCoordinates s"
  "sceneGroups (dispose_mesh child s) = sceneGroups s"
  "scene_children (dispose_mesh child s) = scene_children s"
  "groups (dispose_mesh child s) = groups s"
  "next_object (dispose_mesh child s) = next_object s"
  by (simp_all add: dispose_mesh_def material_dispose_def geometry_dispose_def)

lemma dispose_meshes_frame [simp]:
  "cubeRegistry (fold dispose_mesh cubes s) = cubeRegistry s"
  "excludedCoordinates (fold dispose_mesh cubes s) = excludedCoordinates s"
  "sceneGroups (fold dispose_mesh cubes s) = sceneGroups s"
  "scene_children (fold dispose_mesh cubes s) = scene_children s"
  "groups (fold dispose_mesh cubes s) = groups s"
  "next_object (fold dispose_mesh cubes s) = next_object s"
  by (induction cubes arbitrary: s) simp_all

lemma dispose_group_frame [simp]:
  "cubeRegistry (dispose_group entry s) = cubeRegistry s"
  "excludedCoordinates (dispose_group entry s) = excludedCoordinates s"
  "sceneGroups (dispose_group entry s) = sceneGroups s"
  "groups (dispose_group entry s) = groups s"
  "next_object (dispose_group entry s) = next_object s"
  by (simp_all add: dispose_group_def scene_remove_def Let_def split: prod.splits)

lemma dispose_groups_frame [simp]:
  "cubeRegistry (fold dispose_group entries s) = cubeRegistry s"
  "excludedCoordinates (fold dispose_group entries s) = excludedCoordinates s"
  "sceneGroups (fold dispose_group entries s) = sceneGroups s"
  "groups (fold dispose_group entries s) = groups s"
  "next_object (fold dispose_group entries s) = next_object s"
  by (induction entries arbitrary: s) simp_all

lemma dispose_mesh_flags:
  "disposed_geometry (dispose_mesh child s) g \<longleftrightarrow> g = geometry child \<or> disposed_geometry s g"
  "disposed_material (dispose_mesh child s) m \<longleftrightarrow> m = material child \<or> disposed_material s m"
  by (auto simp add: dispose_mesh_def material_dispose_def geometry_dispose_def
      disposed_geometry_def disposed_material_def)

lemma dispose_meshes_flags:
  "disposed_geometry (fold dispose_mesh cubes s) g \<longleftrightarrow> g \<in> geometry ` set cubes \<or> disposed_geometry s g"
  "disposed_material (fold dispose_mesh cubes s) m \<longleftrightarrow> m \<in> material ` set cubes \<or> disposed_material s m"
  by (induction cubes arbitrary: s) (auto simp add: dispose_mesh_flags)

lemma dispose_group_flags:
  "disposed_geometry (dispose_group (scene, g) s) x \<longleftrightarrow>
     x \<in> geometry ` set (children (groups s g)) \<or> disposed_geometry s x"
  "disposed_material (dispose_group (scene, g) s) m \<longleftrightarrow>
     m \<in> material ` set (children (groups s g)) \<or> disposed_material s m"
  by (simp_all add: dispose_group_def Let_def dispose_meshes_flags scene_remove_def)
     (simp_all add: disposed_geometry_def disposed_material_def)

lemma dispose_groups_flags:
  "disposed_geometry (fold dispose_group entries s) x \<longleftrightarrow>
     (\<exists>(scene, g) \<in> set entries. x \<in> geometry ` set (children (groups s g))) \<or> disposed_geometry s x"
  "disposed_material (fold dispose_group entries s) m \<longleftrightarrow>
     (\<exists>(scene, g) \<in> set entries. m \<in> material ` set (children (groups s g))) \<or> disposed_material s m"
  by (induction entries arbitrary: s) (auto simp add: dispose_group_flags)


lemma dispose_groups_children:
  "scene_children (fold dispose_group entries s) scene =
     fold remove1 (map snd (filter (\<lambda>entry. fst entry = scene) entries)) (scene_children s scene)"
proof (induction entries arbitrary: s)
  case Nil
  then show ?case by simp
next
  case (Cons entry entries)
  obtain scene' g where entry: "entry = (scene', g)" by (cases entry)
  have step: "scene_children (dispose_group (scene', g) s) =
      (scene_children s)(scene' := remove1 g (scene_children s scene'))"
    by (simp add: dispose_group_def Let_def scene_remove_def)
  show ?case
    by (simp add: entry Cons.IH step)
qed

lemma fold_remove1_subset: "set (fold remove1 gs xs) \<subseteq> set xs"
proof (induction gs arbitrary: xs)
  case Nil
  then show ?case by simp
next
  case (Cons a gs)
  have "set (fold remove1 gs (remove1 a xs)) \<subseteq> set (remove1 a xs)" by (rule Cons.IH)
  also have "\<dots> \<subseteq> set xs" by (rule set_remove1_subset)
  finally show ?case by simp
qed

lemma fold_remove1_gone:
  assumes "distinct xs" and "g \<in> set gs"
  shows "g \<notin> set (fold remove1 gs xs)"
  using assms
proof (induction gs arbitrary: xs)
  case Nil
  then show ?case by simp
next
  case (Cons a gs)
  show ?case
  proof (cases "a = g")
    case True
    have "g \<notin> set (remove1 g xs)" using Cons.prems(1) by simp
    then show ?thesis using fold_remove1_subset[of gs "remove1 g xs"] True by auto
  next
    case False
    then have "g \<in> set gs" using Cons.prems(2) by simp
    moreover have "distinct (remove1 a xs)" using Cons.prems(1) by simp
    ultimately show ?thesis using Cons.IH by simp
  qed
qed

lemma dispose_eq:
  "dispose s = (fold dispose_group (sceneGroups s) (s\<lparr>cubeRegistry := [], excludedCoordinates := []\<rparr>))
     \<lparr>sceneGroups := []\<rparr>"
  by (simp add: dispose_def Let_def)

lemma dispose_empty:
  "cubeRegistry (dispose s) = []" "excludedCoordinates (dispose s) = []" "sceneGroups (dispose s) = []"
  by (simp_all add: dispose_eq)

lemma dispose_detaches:
  assumes "(scene, g) \<in> set (sceneGroups s)" and "distinct (scene_children s scene)"
  shows "g \<notin> set (scene_children (dispose s) scene)"
proof -
  have "g \<in> set (map snd (filter (\<lambda>entry. fst entry = scene) (sceneGroups s)))"
    using assms(1) by force
  then show ?thesis
    using assms(2) by (simp add: dispose_eq dispose_groups_children fold_remove1_gone)
qed

lemma dispose_releases:
  assumes "(scene, g) \<in> set (sceneGroups s)" and "cube \<in> set (children (groups s g))"
  shows "geometry_disposed (geometries (dispose s) (geometry cube))"
    and "material_disposed (materials (dispose s) (material cube))"
proof -
  let ?s0 = "s\<lparr>cubeRegistry := [], excludedCoordinates := []\<rparr>"
  have "disposed_geometry (fold dispose_group (sceneGroups s) ?s0) (geometry cube)"
    unfolding dispose_groups_flags using assms by auto
  then show "geometry_disposed (geometries (dispose s) (geometry cube))"
    by (simp add: dispose_eq disposed_geometry_def)
  have "disposed_material (fold dispose_group (sceneGroups s) ?s0) (material cube)"
    unfolding dispose_groups_flags using assms by auto
  then show "material_disposed (materials (dispose s) (material cube))"
    by (simp add: dispose_eq disposed_material_def)
qed

lemma dispose_twice: "dispose (dispose s) = dispose s"
proof -
  have "dispose t = t" if "cubeRegistry t = []" "excludedCoordinates t = []" "sceneGroups t = []" for t
    using that by (simp add: dispose_def)
  then show ?thesis by (simp add: dispose_empty)
qed

lemma initial_dispose: "initial (dispose s) = dispose s"
  by (simp add: initial_def dispose_empty)

lemma render_after_dispose:
  "fst (renderAllCubes getCubeSize scene options (dispose s)) = next_object (dispose s)"
  "children (groups (snd (renderAllCubes getCubeSize scene options (dispose s)))
      (fst (renderAllCubes getCubeSize scene options (dispose s)))) = []"
  "sceneGroups (snd (renderAllCubes getCubeSize scene options (dispose s)))
     = [(scene, next_object (dispose s))]"
proof -
  have none: "map_of (sceneGroups (dispose s)) scene = None" by (simp add: dispose_empty)
  show "fst (renderAllCubes getCubeSize scene options (dispose s)) = next_object (dispose s)"
    using renderAllCubes_attach(2)[OF none] by simp
  show "sceneGroups (snd (renderAllCubes getCubeSize scene options (dispose s)))
     = [(scene, next_object (dispose s))]"
    using renderAllCubes_attach(2)[OF none, of getCubeSize options] by (simp add: dispose_empty)
  have "drawn (snd (renderAllCubes getCubeSize scene options (dispose s)))
      (fst (renderAllCubes getCubeSize scene options (dispose s))) = []"
    by (simp add: renderAllCubes_drawn visible_def dispose_empty)
  then show "children (groups (snd (renderAllCubes getCubeSize scene options (dispose s)))
      (fst (renderAllCubes getCubeSize scene options (dispose s)))) = []"
    by (simp add: drawn_def)
qed


text \<open>
  C8. \<open>dispose\<close> leaves the registry, the exclusion set and the map from scenes to
  groups empty, which is the state of the class when it is loaded. For every scene that had
  a group, the group is no longer among the children of the scene (a scene lists a child
  once), and the geometry and the material of every mesh of the group have been disposed
  of. A second \<open>dispose\<close> changes nothing; no step of \<open>dispose\<close> can fail. After
  \<open>dispose\<close>, \<open>renderAllCubes\<close> makes a new group for the scene it is given, and that
  group is empty.
\<close>

theorem dispose_resets:
  "cubeRegistry (dispose s) = [] \<and> excludedCoordinates (dispose s) = [] \<and> sceneGroups (dispose s) = []
   \<and> dispose s = initial (dispose s)
   \<and> (\<forall>(scene, g) \<in> set (sceneGroups s).
         (distinct (scene_children s scene) \<longrightarrow> g \<notin> set (scene_children (dispose s) scene))
         \<and> (\<forall>cube \<in> set (children (groups s g)).
               geometry_disposed (geometries (dispose s) (geometry cube))
               \<and> material_disposed (materials (dispose s) (material cube))))
   \<and> dispose (dispose s) = dispose s
   \<and> children (groups (snd (renderAllCubes getCubeSize fresh_scene options (dispose s)))
         (fst (renderAllCubes getCubeSize fresh_scene options (dispose s)))) = []
   \<and> sceneGroups (snd (renderAllCubes getCubeSize fresh_scene options (dispose s)))
       = [(fresh_scene, fst (renderAllCubes getCubeSize fresh_scene options (dispose s)))]"
proof -
  have groups: "\<forall>(scene, g) \<in> set (sceneGroups s).
         (distinct (scene_children s scene) \<longrightarrow> g \<notin> set (scene_children (dispose s) scene))
         \<and> (\<forall>cube \<in> set (children (groups s g)).
               geometry_disposed (geometries (dispose s) (geometry cube))
               \<and> material_disposed (materials (dispose s) (material cube)))"
    using dispose_detaches dispose_releases by blast
  have tracked: "sceneGroups (snd (renderAllCubes getCubeSize fresh_scene options (dispose s)))
       = [(fresh_scene, fst (renderAllCubes getCubeSize fresh_scene options (dispose s)))]"
    by (simp only: render_after_dispose)
  show ?thesis
    by (intro conjI)
       (rule dispose_empty initial_dispose [symmetric] groups dispose_twice
          render_after_dispose(2) tracked)+
qed

lemma example_scene_graph:
  "scene_children example = (\<lambda>scene. [])" "next_object example = 0"
  by (simp_all add: example_def fresh_def setExcludedCoordinates_def set_add_def register_coord_def
      getCubeKey_def number_text_def digits_of.simps)

theorem dispose_resets_witness:
  "(5, fst (renderAllCubes 1 5 no_options example))
      \<in> set (sceneGroups (snd (renderAllCubes 1 5 no_options example)))
   \<and> distinct (scene_children (snd (renderAllCubes 1 5 no_options example)) 5)
   \<and> scene_children (snd (renderAllCubes 1 5 no_options example)) 5
       = [fst (renderAllCubes 1 5 no_options example)]
   \<and> fst (renderAllCubes 1 5 no_options example)
       \<notin> set (scene_children (dispose (snd (renderAllCubes 1 5 no_options example))) 5)
   \<and> length (children (groups (snd (renderAllCubes 1 5 no_options example))
                (fst (renderAllCubes 1 5 no_options example)))) = 3
   \<and> list_all
         (\<lambda>cube.
            geometry_disposed (geometries (dispose (snd (renderAllCubes 1 5 no_options example))) (geometry cube))
            \<and> material_disposed (materials (dispose (snd (renderAllCubes 1 5 no_options example))) (material cube)))
         (children (groups (snd (renderAllCubes 1 5 no_options example))
                           (fst (renderAllCubes 1 5 no_options example))))"
proof -
  let ?r = "renderAllCubes 1 5 no_options example"
  have none: "map_of (sceneGroups example) 5 = None" by (simp add: example_registry)
  note first = renderAllCubes_attach(2) [OF none, of 1 no_options]
  have tracked: "(5, fst ?r) \<in> set (sceneGroups (snd ?r))"
    using first by (simp add: example_registry)
  have kids: "scene_children (snd ?r) 5 = [fst ?r]"
    using first by (simp add: example_scene_graph)
  have once: "distinct (scene_children (snd ?r) 5)"
    by (simp add: kids)
  have count: "length (children (groups (snd ?r) (fst ?r))) = 3"
    using renderAllCubes_drawn [of 1 5 no_options example]
    by (simp add: drawn_length [symmetric] visible_def example_registry)
  have all: "\<forall>(scene, g) \<in> set (sceneGroups (snd ?r)).
         (distinct (scene_children (snd ?r) scene) \<longrightarrow> g \<notin> set (scene_children (dispose (snd ?r)) scene))
         \<and> (\<forall>cube \<in> set (children (groups (snd ?r) g)).
               geometry_disposed (geometries (dispose (snd ?r)) (geometry cube))
               \<and> material_disposed (materials (dispose (snd ?r)) (material cube)))"
    using dispose_resets [of "snd ?r" 1 5 no_options] by (elim conjE)
  have here: "(distinct (scene_children (snd ?r) 5) \<longrightarrow> fst ?r \<notin> set (scene_children (dispose (snd ?r)) 5))
         \<and> (\<forall>cube \<in> set (children (groups (snd ?r) (fst ?r))).
               geometry_disposed (geometries (dispose (snd ?r)) (geometry cube))
               \<and> material_disposed (materials (dispose (snd ?r)) (material cube)))"
    using bspec [OF all tracked] by (simp only: split_conv)
  show ?thesis
    using tracked once kids count here unfolding list_all_iff by blast
qed

section \<open>The order of the registered coordinates\<close>

lemma getAllCoordinates_fold:
  "fold (\<lambda>(key, cubeInfo) coordinates. coordinates @ [position cubeInfo]) registry acc
     = acc @ map (\<lambda>(key, cubeInfo). position cubeInfo) registry"
  by (induction registry arbitrary: acc) (simp_all add: split_beta)

lemma getAllCoordinates_eq:
  "getAllCoordinates s = map (\<lambda>(key, cubeInfo). position cubeInfo) (cubeRegistry s)"
  by (simp add: getAllCoordinates_def getAllCoordinates_fold)

lemma fold_set_add_acc:
  "fold set_add ys acc = acc @ fold set_add (filter (\<lambda>y. y \<notin> set acc) ys) []"
proof (induction "length ys" arbitrary: ys acc rule: less_induct)
  case less
  show ?case
  proof (cases ys)
    case Nil
    then show ?thesis by simp
  next
    case (Cons y ys')
    show ?thesis
    proof (cases "y \<in> set acc")
      case True
      then show ?thesis using less[of ys' acc] Cons by (simp add: set_add_def)
    next
      case False
      have "fold set_add ys' (acc @ [y]) =
          (acc @ [y]) @ fold set_add (filter (\<lambda>z. z \<notin> set (acc @ [y])) ys') []"
        by (rule less) (simp add: Cons)
      moreover have "fold set_add (filter (\<lambda>z. z \<notin> set acc) ys') [y] =
          [y] @ fold set_add (filter (\<lambda>z. z \<notin> set [y]) (filter (\<lambda>z. z \<notin> set acc) ys')) []"
        by (rule less) (simp add: Cons le_imp_less_Suc)
      moreover have "filter (\<lambda>z. z \<notin> set [y]) (filter (\<lambda>z. z \<notin> set acc) ys')
          = filter (\<lambda>z. z \<notin> set (acc @ [y])) ys'"
        by (auto intro: filter_cong)
      ultimately show ?thesis using False Cons by (simp add: set_add_def)
    qed
  qed
qed

lemma insertion_order_Cons:
  "insertion_order (x # xs) = x # insertion_order (filter (\<lambda>y. y \<noteq> x) xs)"
  using fold_set_add_acc[of xs "[x]"] by (simp add: insertion_order_def set_add_def)

lemma insertion_order_map:
  assumes "inj f"
  shows "map f (insertion_order xs) = insertion_order (map f xs)"
proof -
  have "map f (fold set_add xs acc) = fold set_add (map f xs) (map f acc)" for acc
  proof (induction xs arbitrary: acc)
    case Nil
    then show ?case by simp
  next
    case (Cons x xs)
    have "f x \<in> f ` set acc \<longleftrightarrow> x \<in> set acc" using assms by (simp add: inj_image_mem_iff)
    then have "map f (set_add x acc) = set_add (f x) (map f acc)" by (simp add: set_add_def)
    then show ?case using Cons.IH[of "set_add x acc"] by simp
  qed
  then show ?thesis by (simp add: insertion_order_def)
qed

lemma register_coord_keys:
  "map fst (cubeRegistry (register_coord c t coord s)) =
     (if key_of coord \<in> set (excludedCoordinates s) \<or> key_of coord \<in> set (map fst (cubeRegistry s))
      then map fst (cubeRegistry s)
      else map fst (cubeRegistry s) @ [key_of coord])"
proof -
  have "map_of (cubeRegistry s) (key_of coord) = None \<longleftrightarrow> key_of coord \<notin> set (map fst (cubeRegistry s))"
    by (simp add: map_of_eq_None_iff)
  then show ?thesis
    by (auto simp add: register_coord_def key_of_def Let_def update_keys split: option.splits)
qed

lemma registerCubes_keys:
  "map fst (cubeRegistry (registerCubes coordinates c t s)) =
     map fst (cubeRegistry s)
     @ insertion_order (filter (\<lambda>key. key \<notin> set (excludedCoordinates s) \<and> key \<notin> set (map fst (cubeRegistry s)))
                          (map key_of coordinates))"
proof (induction coordinates arbitrary: s)
  case Nil
  then show ?case by (simp add: insertion_order_def)
next
  case (Cons coord coordinates)
  let ?s1 = "register_coord c t coord s"
  note IH = Cons.IH[of ?s1]
  show ?case
  proof (cases "key_of coord \<in> set (excludedCoordinates s) \<or> key_of coord \<in> set (map fst (cubeRegistry s))")
    case True
    then have "map fst (cubeRegistry ?s1) = map fst (cubeRegistry s)"
      by (simp only: register_coord_keys if_True)
    then show ?thesis using IH True by auto
  next
    case False
    then have keys: "map fst (cubeRegistry ?s1) = map fst (cubeRegistry s) @ [key_of coord]"
      by (simp only: register_coord_keys if_False)
    have "filter (\<lambda>y. y \<noteq> key_of coord)
            (filter (\<lambda>key. key \<notin> set (excludedCoordinates s) \<and> key \<notin> set (map fst (cubeRegistry s)))
               (map key_of coordinates))
        = filter (\<lambda>key. key \<notin> set (excludedCoordinates s) \<and> key \<notin> set (map fst (cubeRegistry s) @ [key_of coord]))
            (map key_of coordinates)"
      by (auto intro: filter_cong)
    then show ?thesis using IH False by (simp add: keys insertion_order_Cons)
  qed
qed


lemma update_entries: "set (AList.update k v al) \<subseteq> insert (k, v) (set al)"
  by (induction al) auto

lemma keyed_update:
  assumes "keyed s"
  shows "keyed (s\<lparr>cubeRegistry := AList.update (key_of (position v)) v (cubeRegistry s)\<rparr>)"
proof -
  have "entry = (key_of (position v), v) \<or> entry \<in> set (cubeRegistry s)"
    if "entry \<in> set (AList.update (key_of (position v)) v (cubeRegistry s))" for entry
    using that update_entries[of "key_of (position v)" v "cubeRegistry s"] by blast
  then show ?thesis
    using assms unfolding keyed_def by fastforce
qed

lemma keyed_register_coord:
  assumes "keyed s"
  shows "keyed (register_coord c t coord s)"
proof (cases "key_of coord \<in> set (excludedCoordinates s)")
  case True
  then show ?thesis using assms by (simp add: register_coord_skip)
next
  case False
  show ?thesis
  proof (cases "map_of (cubeRegistry s) (key_of coord)")
    case None
    let ?v = "\<lparr>position = coord, color = c, type = kind_of t\<rparr>"
    have "register_coord c t coord s =
        s\<lparr>cubeRegistry := AList.update (key_of (position ?v)) ?v (cubeRegistry s)\<rparr>"
      using False None by (simp add: register_coord_def key_of_def)
    then show ?thesis using keyed_update[OF assms, of ?v] by simp
  next
    case (Some existing)
    let ?v = "\<lparr>position = coord, color = 0x800080, type = Overlap\<rparr>"
    have "register_coord c t coord s =
        s\<lparr>cubeRegistry := AList.update (key_of (position ?v)) ?v (cubeRegistry s)\<rparr>"
      using False Some by (simp add: register_coord_def key_of_def)
    then show ?thesis using keyed_update[OF assms, of ?v] by simp
  qed
qed

lemma keyed_registerCubes:
  "keyed s \<Longrightarrow> keyed (registerCubes coordinates c t s)"
  by (induction coordinates arbitrary: s) (simp_all add: keyed_register_coord)

lemma keyed_initial: "keyed (initial w)"
  by (simp add: keyed_def initial_def)

lemma keyed_keys:
  assumes "keyed s"
  shows "map key_of (getAllCoordinates s) = map fst (cubeRegistry s)"
  using assms unfolding keyed_def getAllCoordinates_eq by (auto simp add: split_beta)

lemma key_of_injective: "inj key_of"
  by (rule injI) (rule key_of_inj)

text \<open>
  C10. In a registry whose records are filed under the keys of their positions, as they
  are in every registry that \<open>registerCubes\<close> has built, \<open>getAllCoordinates\<close> returns
  the position of every record, excluded or overlap or neither, in the order of the
  registry. A call of \<open>registerCubes\<close> leaves the coordinates that were registered where
  they are in that order, also those it turns into overlaps, and puts after them the
  coordinates of the batch that are new and not excluded, each at its first occurrence.
\<close>

theorem getAllCoordinates_insertion_order:
  assumes "\<forall>(key, cubeInfo) \<in> set (cubeRegistry s). key = key_of (position cubeInfo)"
  shows "getAllCoordinates s = map (\<lambda>(key, cubeInfo). position cubeInfo) (cubeRegistry s)
       \<and> getAllCoordinates (registerCubes coordinates c t s) =
           getAllCoordinates s
           @ insertion_order
               (filter (\<lambda>coord. key_of coord \<notin> set (excludedCoordinates s)
                               \<and> coord \<notin> set (getAllCoordinates s))
                  coordinates)"
proof -
  let ?new = "filter (\<lambda>coord. key_of coord \<notin> set (excludedCoordinates s)
                               \<and> coord \<notin> set (getAllCoordinates s)) coordinates"
  have keyed: "keyed s" using assms by (simp add: keyed_def)
  then have keyed': "keyed (registerCubes coordinates c t s)" by (rule keyed_registerCubes)
  have old: "map key_of (getAllCoordinates s) = map fst (cubeRegistry s)"
    using keyed by (rule keyed_keys)
  have mem: "key_of coord \<in> set (map fst (cubeRegistry s)) \<longleftrightarrow> coord \<in> set (getAllCoordinates s)" for coord
    using key_of_injective by (simp add: old [symmetric] inj_image_mem_iff)
  have sel: "filter (\<lambda>key. key \<notin> set (excludedCoordinates s) \<and> key \<notin> set (map fst (cubeRegistry s)))
                (map key_of coordinates) = map key_of ?new"
    by (simp only: filter_map comp_def mem)
  have "map key_of (getAllCoordinates (registerCubes coordinates c t s))
      = map fst (cubeRegistry (registerCubes coordinates c t s))"
    using keyed' by (rule keyed_keys)
  also have "\<dots> = map fst (cubeRegistry s) @ insertion_order (map key_of ?new)"
    by (simp only: registerCubes_keys sel)
  also have "\<dots> = map key_of (getAllCoordinates s @ insertion_order ?new)"
    by (simp only: map_append old insertion_order_map [OF key_of_injective])
  finally have "getAllCoordinates (registerCubes coordinates c t s)
      = getAllCoordinates s @ insertion_order ?new"
    using key_of_injective by (simp only: inj_map_eq_map)
  then show ?thesis by (simp only: getAllCoordinates_eq simp_thms)
qed


theorem getAllCoordinates_insertion_order_witness:
  "list_all (\<lambda>(key, cubeInfo). key = key_of (position cubeInfo)) (cubeRegistry example)
   \<and> getAllCoordinates example =
       [\<lparr>pos_x = 0, pos_y = 0\<rparr>, \<lparr>pos_x = 1, pos_y = 0\<rparr>, \<lparr>pos_x = 4, pos_y = 0\<rparr>, \<lparr>pos_x = 2, pos_y = 0\<rparr>]
   \<and> getAllCoordinates
         (registerCubes [\<lparr>pos_x = 7, pos_y = 0\<rparr>, \<lparr>pos_x = 0, pos_y = 0\<rparr>, \<lparr>pos_x = 4, pos_y = 0\<rparr>,
                         \<lparr>pos_x = 7, pos_y = 0\<rparr>] 3 RegHallway example) =
       [\<lparr>pos_x = 0, pos_y = 0\<rparr>, \<lparr>pos_x = 1, pos_y = 0\<rparr>, \<lparr>pos_x = 4, pos_y = 0\<rparr>, \<lparr>pos_x = 2, pos_y = 0\<rparr>,
        \<lparr>pos_x = 7, pos_y = 0\<rparr>]"
proof -
  have filed: "\<forall>(key, cubeInfo) \<in> set (cubeRegistry example). key = key_of (position cubeInfo)"
    by (simp add: example_registry key_of_def getCubeKey_def number_text_def digits_of.simps)
  note order = getAllCoordinates_insertion_order [OF filed,
      of "[\<lparr>pos_x = 7, pos_y = 0\<rparr>, \<lparr>pos_x = 0, pos_y = 0\<rparr>, \<lparr>pos_x = 4, pos_y = 0\<rparr>, \<lparr>pos_x = 7, pos_y = 0\<rparr>]"
         3 RegHallway]
  have before: "getAllCoordinates example =
       [\<lparr>pos_x = 0, pos_y = 0\<rparr>, \<lparr>pos_x = 1, pos_y = 0\<rparr>, \<lparr>pos_x = 4, pos_y = 0\<rparr>, \<lparr>pos_x = 2, pos_y = 0\<rparr>]"
    using order by (simp add: example_registry)
  have new: "insertion_order
      (filter (\<lambda>coord. key_of coord \<notin> set (excludedCoordinates example)
                      \<and> coord \<notin> set [\<lparr>pos_x = 0, pos_y = 0\<rparr>, \<lparr>pos_x = 1, pos_y = 0\<rparr>,
                                       \<lparr>pos_x = 4, pos_y = 0\<rparr>, \<lparr>pos_x = 2, pos_y = 0\<rparr>])
         [\<lparr>pos_x = 7, pos_y = 0\<rparr>, \<lparr>pos_x = 0, pos_y = 0\<rparr>, \<lparr>pos_x = 4, pos_y = 0\<rparr>, \<lparr>pos_x = 7, pos_y = 0\<rparr>])
      = [\<lparr>pos_x = 7, pos_y = 0\<rparr>]"
    by (simp add: example_registry insertion_order_def set_add_def key_of_def getCubeKey_def
        number_text_def digits_of.simps)
  have after: "getAllCoordinates
         (registerCubes [\<lparr>pos_x = 7, pos_y = 0\<rparr>, \<lparr>pos_x = 0, pos_y = 0\<rparr>, \<lparr>pos_x = 4, pos_y = 0\<rparr>,
                         \<lparr>pos_x = 7, pos_y = 0\<rparr>] 3 RegHallway example) =
       [\<lparr>pos_x = 0, pos_y = 0\<rparr>, \<lparr>pos_x = 1, pos_y = 0\<rparr>, \<lparr>pos_x = 4, pos_y = 0\<rparr>, \<lparr>pos_x = 2, pos_y = 0\<rparr>,
        \<lparr>pos_x = 7, pos_y = 0\<rparr>]"
    using order [THEN conjunct2] by (simp only: before new append.simps)
  show ?thesis
    using filed before after by (simp only: list_all_iff simp_thms)
qed

section \<open>What every operation preserves\<close>

text \<open>
  The records of the registry stay filed under the keys of their positions, and the scenes
  keep listing each child once, through every operation of the class. Both hold in the
  state in which the examples start.
\<close>

lemma register_coord_scene_graph [simp]:
  "scene_children (register_coord c t coord s) = scene_children s"
  "next_object (register_coord c t coord s) = next_object s"
  "sceneGroups (register_coord c t coord s) = sceneGroups s"
  by (simp_all add: register_coord_def Let_def split: option.splits)

lemma registerCubes_scene_graph [simp]:
  "scene_children (registerCubes coordinates c t s) = scene_children s"
  "next_object (registerCubes coordinates c t s) = next_object s"
  "sceneGroups (registerCubes coordinates c t s) = sceneGroups s"
  by (induction coordinates arbitrary: s) simp_all

lemma keyed_cong: "cubeRegistry s' = cubeRegistry s \<Longrightarrow> keyed s' = keyed s"
  by (simp add: keyed_def)

lemma scenes_ok_cong:
  "scene_children s' = scene_children s \<Longrightarrow> next_object s' = next_object s \<Longrightarrow>
   scenes_ok s' = scenes_ok s"
  by (simp add: scenes_ok_def)

lemma keyed_clearRegistry: "keyed (clearRegistry s)"
  by (simp add: keyed_def clearRegistry_def)

lemma keyed_setExcludedCoordinates: "keyed (setExcludedCoordinates coordinates s) = keyed s"
  by (rule keyed_cong) (simp add: setExcludedCoordinates_eq)

lemma unregisterCoordinates_eq:
  "unregisterCoordinates coordinates s =
     s\<lparr>cubeRegistry := fold AList.delete (map key_of coordinates) (cubeRegistry s)\<rparr>"
proof -
  have "fold (\<lambda>coord s'.
             let key = getCubeKey (pos_x coord) (pos_y coord)
             in s'\<lparr>cubeRegistry := AList.delete key (cubeRegistry s')\<rparr>) coordinates s
      = s\<lparr>cubeRegistry := fold AList.delete (map key_of coordinates) (cubeRegistry s)\<rparr>"
    by (induction coordinates arbitrary: s) (simp_all add: key_of_def)
  then show ?thesis by (simp add: unregisterCoordinates_def)
qed

lemma fold_delete_subset: "set (fold AList.delete ks al) \<subseteq> set al"
proof (induction ks arbitrary: al)
  case Nil
  then show ?case by simp
next
  case (Cons k ks)
  have "set (fold AList.delete ks (AList.delete k al)) \<subseteq> set (AList.delete k al)" by (rule Cons.IH)
  also have "\<dots> \<subseteq> set al" by (auto simp add: AList.delete_eq)
  finally show ?case by simp
qed

lemma keyed_unregisterCoordinates: "keyed s \<Longrightarrow> keyed (unregisterCoordinates coordinates s)"
  using fold_delete_subset[of "map key_of coordinates" "cubeRegistry s"]
  by (auto simp add: keyed_def unregisterCoordinates_eq)

lemma keyed_renderAllCubes: "keyed (snd (renderAllCubes getCubeSize scene options s)) = keyed s"
  by (rule keyed_cong) (simp add: renderAllCubes_frame)

lemma keyed_dispose: "keyed (dispose s)"
  by (simp add: keyed_def dispose_empty)

lemma keyed_fresh: "keyed fresh"
  by (simp add: keyed_def fresh_def)

lemma scenes_ok_fresh: "scenes_ok fresh"
  by (simp add: scenes_ok_def fresh_def)

lemma scenes_ok_registerCubes: "scenes_ok (registerCubes coordinates c t s) = scenes_ok s"
  by (rule scenes_ok_cong) simp_all

lemma scenes_ok_setExcludedCoordinates: "scenes_ok (setExcludedCoordinates coordinates s) = scenes_ok s"
  by (rule scenes_ok_cong) (simp_all add: setExcludedCoordinates_eq)

lemma scenes_ok_unregisterCoordinates: "scenes_ok (unregisterCoordinates coordinates s) = scenes_ok s"
  by (rule scenes_ok_cong) (simp_all add: unregisterCoordinates_eq)

lemma scenes_ok_clearRegistry: "scenes_ok (clearRegistry s) = scenes_ok s"
  by (rule scenes_ok_cong) (simp_all add: clearRegistry_def)


lemma render_cube_next_object: "next_object s \<le> next_object (render_cube cs yo geo g entry s)"
  by (simp add: render_cube_def createMaterialWithTexture_def group_add_def Let_def
      split: prod.splits)

lemma render_fold_next_object: "next_object s \<le> next_object (fold (render_cube cs yo geo g) entries s)"
proof (induction entries arbitrary: s)
  case Nil
  then show ?case by simp
next
  case (Cons entry entries)
  have "next_object s \<le> next_object (render_cube cs yo geo g entry s)"
    by (rule render_cube_next_object)
  also have "\<dots> \<le> next_object (fold (render_cube cs yo geo g) entries (render_cube cs yo geo g entry s))"
    by (rule Cons.IH)
  finally show ?case by simp
qed

lemma prepared_next_object [simp]: "next_object (prepared cs g s) = Suc (next_object s)"
  by (simp add: prepared_def new_BoxGeometry_def group_clear_def)

lemma attach_group_next_object [simp]: "next_object (attach_group scene s) = Suc (next_object s)"
  by (simp add: attach_group_def new_Group_def set_group_name_def scene_add_def)

lemma renderAllCubes_next_object:
  "next_object s < next_object (snd (renderAllCubes getCubeSize scene options s))"
proof (cases "map_of (sceneGroups s) scene")
  case None
  let ?p = "prepared (option_cubeSize getCubeSize options) (next_object s) (attach_group scene s)"
  have "next_object ?p
      \<le> next_object (fold (render_cube (option_cubeSize getCubeSize options) (option_yOffset options)
              (Suc (next_object s)) (next_object s)) (cubeRegistry s) ?p)"
    by (rule render_fold_next_object)
  then show ?thesis by (simp add: renderAllCubes_first[OF None])
next
  case (Some g)
  let ?p = "prepared (option_cubeSize getCubeSize options) g s"
  have "next_object ?p
      \<le> next_object (fold (render_cube (option_cubeSize getCubeSize options) (option_yOffset options)
              (next_object s) g) (cubeRegistry s) ?p)"
    by (rule render_fold_next_object)
  then show ?thesis by (simp add: renderAllCubes_existing[OF Some])
qed

lemma scenes_ok_grow:
  assumes "scenes_ok s" and "next_object s < next_object s'"
    and "scene_children s' = scene_children s
         \<or> (\<exists>scene. scene_children s' = (scene_children s)(scene := scene_children s scene @ [next_object s]))"
  shows "scenes_ok s'"
  unfolding scenes_ok_def
proof (intro allI conjI ballI)
  fix sc
  have old: "distinct (scene_children s sc)" "\<forall>object \<in> set (scene_children s sc). object < next_object s"
    using assms(1) by (simp_all add: scenes_ok_def)
  then have new: "next_object s \<notin> set (scene_children s sc)" by auto
  have kids: "scene_children s' sc = scene_children s sc
      \<or> scene_children s' sc = scene_children s sc @ [next_object s]"
    using assms(3)
  proof
    assume "scene_children s' = scene_children s"
    then show ?thesis by simp
  next
    assume "\<exists>scene. scene_children s' = (scene_children s)(scene := scene_children s scene @ [next_object s])"
    then obtain scene where
      "scene_children s' = (scene_children s)(scene := scene_children s scene @ [next_object s])"
      by blast
    then show ?thesis by (cases "sc = scene") simp_all
  qed
  show "distinct (scene_children s' sc)"
    using kids old(1) new by auto
  fix object assume "object \<in> set (scene_children s' sc)"
  then have "object \<in> set (scene_children s sc) \<or> object = next_object s"
    using kids by auto
  then show "object < next_object s'"
    using old(2) assms(2) by auto
qed

lemma scenes_ok_renderAllCubes:
  assumes "scenes_ok s"
  shows "scenes_ok (snd (renderAllCubes getCubeSize scene options s))"
proof (rule scenes_ok_grow[OF assms renderAllCubes_next_object])
  show "scene_children (snd (renderAllCubes getCubeSize scene options s)) = scene_children s
      \<or> (\<exists>sc. scene_children (snd (renderAllCubes getCubeSize scene options s))
             = (scene_children s)(sc := scene_children s sc @ [next_object s]))"
  proof (cases "map_of (sceneGroups s) scene")
    case None
    have "scene_children (snd (renderAllCubes getCubeSize scene options s))
        = (scene_children s)(scene := scene_children s scene @ [next_object s])"
      using renderAllCubes_attach(2)[OF None, of getCubeSize options] by (elim conjE)
    then show ?thesis by (intro disjI2 exI[of _ scene])
  next
    case (Some g)
    have "scene_children (snd (renderAllCubes getCubeSize scene options s)) = scene_children s"
      using renderAllCubes_attach(1)[OF Some, of getCubeSize options] by (elim conjE)
    then show ?thesis by (rule disjI1)
  qed
qed

lemma fold_remove1_distinct: "distinct xs \<Longrightarrow> distinct (fold remove1 gs xs)"
  by (induction gs arbitrary: xs) simp_all

lemma scenes_ok_dispose:
  assumes "scenes_ok s"
  shows "scenes_ok (dispose s)"
  unfolding scenes_ok_def
proof (intro allI conjI ballI)
  fix scene
  let ?gs = "map snd (filter (\<lambda>entry. fst entry = scene) (sceneGroups s))"
  have kids: "scene_children (dispose s) scene = fold remove1 ?gs (scene_children s scene)"
    by (simp add: dispose_eq dispose_groups_children)
  have nxt: "next_object (dispose s) = next_object s"
    by (simp add: dispose_eq)
  have old: "distinct (scene_children s scene)"
      "\<forall>object \<in> set (scene_children s scene). object < next_object s"
    using assms by (simp_all add: scenes_ok_def)
  show "distinct (scene_children (dispose s) scene)"
    unfolding kids using old(1) by (rule fold_remove1_distinct)
  fix object assume "object \<in> set (scene_children (dispose s) scene)"
  then have "object \<in> set (fold remove1 ?gs (scene_children s scene))"
    by (simp only: kids)
  then have "object \<in> set (scene_children s scene)"
    using fold_remove1_subset[of ?gs "scene_children s scene"] by (rule rev_subsetD)
  then have "object < next_object s"
    by (rule bspec[OF old(2)])
  then show "object < next_object (dispose s)"
    by (simp only: nxt)
qed

section \<open>Removing duplicate points\<close>

text \<open>
  The filter at the end of \<open>getPathCoordinates\<close> keeps each integer point at its first
  occurrence: for an array of integer points the result has the points of the array, every
  one once, in the order in which they first occur, and it is empty only when the array is.
  (A point with a \<open>NaN\<close> coordinate equals no point, not even itself, so \<open>findIndex\<close>
  never finds it and the filter drops it.)
\<close>

lemma findIndex_range: "findIndex P arr = - 1 \<or> (0 \<le> findIndex P arr \<and> findIndex P arr < int (length arr))"
  by (induction arr) (auto simp add: Let_def)

lemma findIndex_lower: "- 1 \<le> findIndex P arr"
  using findIndex_range[of P arr] by auto

lemma findIndex_none: "findIndex P arr = - 1 \<longleftrightarrow> (\<forall>c \<in> set arr. \<not> P c)"
proof (induction arr)
  case Nil
  then show ?case by simp
next
  case (Cons c arr)
  have "findIndex P arr + 1 \<noteq> - 1" using findIndex_lower[of P arr] by simp
  then show ?case using Cons.IH by (auto simp add: Let_def)
qed

lemma findIndex_append:
  "findIndex P (arr @ rest) =
     (if \<exists>c \<in> set arr. P c then findIndex P arr
      else if findIndex P rest = - 1 then - 1 else int (length arr) + findIndex P rest)"
proof (induction arr)
  case Nil
  then show ?case by simp
next
  case (Cons c arr)
  show ?case
  proof (cases "P c")
    case True
    then show ?thesis by simp
  next
    case False
    show ?thesis
    proof (cases "\<exists>c \<in> set arr. P c")
      case True
      then show ?thesis using False Cons.IH by simp
    next
      case none: False
      then have "findIndex P arr = - 1" by (simp add: findIndex_none)
      then show ?thesis using False none Cons.IH findIndex_range[of P rest] by (auto simp add: Let_def)
    qed
  qed
qed


lemma findIndex_self:
  "findIndex (\<lambda>c. c = x) (arr @ [x]) = int (length arr) \<longleftrightarrow> x \<notin> set arr"
proof (cases "x \<in> set arr")
  case True
  then have "findIndex (\<lambda>c. c = x) (arr @ [x]) = findIndex (\<lambda>c. c = x) arr"
    by (simp add: findIndex_append)
  then show ?thesis using True findIndex_range[of "\<lambda>c. c = x" arr] by auto
next
  case False
  then show ?thesis by (simp add: findIndex_append)
qed

lemma firsts_snoc: "firsts (arr @ [x]) = firsts arr @ (if x \<in> set arr then [] else [x])"
proof -
  have old: "filter (\<lambda>(y, index). findIndex (\<lambda>c. c = y) (arr @ [x]) = int index) (zip arr [0..<length arr])
      = filter (\<lambda>(y, index). findIndex (\<lambda>c. c = y) arr = int index) (zip arr [0..<length arr])"
  proof (rule filter_cong[OF refl])
    fix entry assume "entry \<in> set (zip arr [0..<length arr])"
    then have "fst entry \<in> set arr"
      using set_zip_leftD[of "fst entry" "snd entry" arr "[0..<length arr]"] by simp
    then show "(case entry of (y, index) \<Rightarrow> findIndex (\<lambda>c. c = y) (arr @ [x]) = int index)
        = (case entry of (y, index) \<Rightarrow> findIndex (\<lambda>c. c = y) arr = int index)"
      by (cases entry) (auto simp add: findIndex_append)
  qed
  have "zip (arr @ [x]) [0..<length (arr @ [x])] = zip arr [0..<length arr] @ [(x, length arr)]"
    by simp
  then show ?thesis
    unfolding firsts_def by (simp add: old findIndex_self del: upt_Suc)
qed

lemma insertion_order_snoc:
  "insertion_order (arr @ [x]) = insertion_order arr @ (if x \<in> set arr then [] else [x])"
  by (simp add: insertion_order_def set_add_def fold_set_add_set)

lemma firsts_insertion_order: "firsts arr = insertion_order arr"
proof (induction arr rule: rev_induct)
  case Nil
  then show ?case by (simp add: firsts_def insertion_order_def)
next
  case (snoc x arr)
  then show ?case by (simp only: firsts_snoc insertion_order_snoc)
qed

lemma findIndex_cong:
  "(\<And>c. c \<in> set arr \<Longrightarrow> P c = Q c) \<Longrightarrow> findIndex P arr = findIndex Q arr"
  by (induction arr) simp_all

lemma uniqueCoords_firsts:
  assumes "\<forall>p \<in> set coordinates. integer_point p"
  shows "uniqueCoords coordinates = firsts coordinates"
proof -
  have same: "findIndex (\<lambda>c. js_eq (point_x c) (point_x coord) \<and> js_eq (point_y c) (point_y coord)) coordinates
      = findIndex (\<lambda>c. c = coord) coordinates" if "coord \<in> set coordinates" for coord
  proof (rule findIndex_cong)
    fix c assume "c \<in> set coordinates"
    then obtain m n where c: "c = \<lparr>point_x = Finite (of_int m), point_y = Finite (of_int n)\<rparr>"
      using assms unfolding integer_point_def by blast
    show "(js_eq (point_x c) (point_x coord) \<and> js_eq (point_y c) (point_y coord)) = (c = coord)"
      unfolding c by (cases coord) (auto simp add: js_eq_Finite)
  qed
  have "filter (\<lambda>(coord, index).
          findIndex (\<lambda>c. js_eq (point_x c) (point_x coord) \<and> js_eq (point_y c) (point_y coord)) coordinates
            = int index) (zip coordinates [0..<length coordinates])
      = filter (\<lambda>(coord, index). findIndex (\<lambda>c. c = coord) coordinates = int index)
          (zip coordinates [0..<length coordinates])"
  proof (rule filter_cong[OF refl])
    fix entry assume "entry \<in> set (zip coordinates [0..<length coordinates])"
    then have "fst entry \<in> set coordinates"
      using set_zip_leftD[of "fst entry" "snd entry" coordinates "[0..<length coordinates]"] by simp
    then show "(case entry of (coord, index) \<Rightarrow>
          findIndex (\<lambda>c. js_eq (point_x c) (point_x coord) \<and> js_eq (point_y c) (point_y coord)) coordinates
            = int index)
        = (case entry of (coord, index) \<Rightarrow> findIndex (\<lambda>c. c = coord) coordinates = int index)"
      using same[of "fst entry"] by (cases entry) simp
  qed
  then show ?thesis by (simp only: uniqueCoords_def firsts_def)
qed

lemma uniqueCoords_first_occurrences:
  assumes "\<forall>p \<in> set coordinates. integer_point p"
  shows "uniqueCoords coordinates = insertion_order coordinates
   \<and> distinct (uniqueCoords coordinates)
   \<and> set (uniqueCoords coordinates) = set coordinates
   \<and> (uniqueCoords coordinates = [] \<longleftrightarrow> coordinates = [])"
proof -
  have eq: "uniqueCoords coordinates = insertion_order coordinates"
    using assms by (simp only: uniqueCoords_firsts firsts_insertion_order)
  have "set (insertion_order coordinates) = set coordinates"
    by (simp add: insertion_order_def fold_set_add_set)
  moreover have "distinct (insertion_order coordinates)"
    by (simp add: insertion_order_def fold_set_add_distinct)
  ultimately show ?thesis using eq by (metis set_empty)
qed


section \<open>Paths\<close>

text \<open>
  The finite numbers of \<open>getPathCoordinates\<close> stay finite while the endpoints are at most
  \<open>2 ^ 29\<close> in absolute value: the bounds below are coarse powers of two, far from the
  overflow at \<open>2 ^ 1024\<close>. The length of the path is then a finite number, and when it is
  not zero it is at least \<open>2 powi (- 537)\<close>, the square root of the smallest positive
  double, so that the quotients \<open>dx / length\<close> and \<open>dy / length\<close> are finite too.
\<close>

lemma getPathCoordinates_generated:
  "getPathCoordinates startX startY endX endY width =
     (if js_eq (path_length startX startY endX endY) (Finite 0) then
        Some (Inr [\<lparr>point_x = js_round startX, point_y = js_round startY\<rparr>])
      else case generated startX startY endX endY (default_width width) of
             None \<Rightarrow> None
           | Some (Inl e) \<Rightarrow> Some (Inl e)
           | Some (Inr coordinates) \<Rightarrow> Some (Inr (uniqueCoords coordinates)))"
  by (simp add: getPathCoordinates_def path_length_def generated_def Let_def)

lemma square_finite:
  assumes "\<bar>z\<bar> \<le> 2 ^ j" and "j \<le> 30"
  shows "\<exists>p. to_double (z * z) = Finite p \<and> \<bar>p\<bar> \<le> 2 ^ (2 * j) \<and> 0 \<le> p"
proof -
  have "0 \<le> \<bar>z\<bar>" by simp
  then have "\<bar>z\<bar> * \<bar>z\<bar> \<le> 2 ^ j * 2 ^ j" using assms(1) by (intro mult_mono) simp_all
  moreover have "(2::real) ^ (2 * j) = 2 ^ j * 2 ^ j" by (simp only: mult_2 power_add)
  ultimately have "\<bar>z * z\<bar> \<le> 2 ^ (2 * j)" by (simp only: abs_mult)
  moreover have "2 * j \<le> 1023" using assms(2) by linarith
  ultimately have "\<exists>p. to_double (z * z) = Finite p \<and> \<bar>p\<bar> \<le> 2 ^ (2 * j) \<and> (0 \<le> z * z \<longrightarrow> 0 \<le> p)"
    by (rule to_double_finite)
  then obtain p where "to_double (z * z) = Finite p" "\<bar>p\<bar> \<le> 2 ^ (2 * j)" "0 \<le> z * z \<longrightarrow> 0 \<le> p"
    by blast
  moreover have "0 \<le> z * z" by (rule zero_le_square)
  ultimately show ?thesis by blast
qed

lemma square_sum_finite:
  assumes "\<bar>x\<bar> \<le> 2 ^ j" and "\<bar>y\<bar> \<le> 2 ^ j" and "j \<le> 30"
  shows "\<exists>s. js_add (js_mul (Finite x) (Finite x)) (js_mul (Finite y) (Finite y)) = Finite s
           \<and> 0 \<le> s \<and> s \<le> 2 ^ (2 * j + 1) \<and> (s \<noteq> 0 \<longrightarrow> 2 powi (- 1074) \<le> s)"
proof -
  obtain p where p: "to_double (x * x) = Finite p" "\<bar>p\<bar> \<le> 2 ^ (2 * j)" "0 \<le> p"
    using square_finite[OF assms(1,3)] by blast
  obtain q where q: "to_double (y * y) = Finite q" "\<bar>q\<bar> \<le> 2 ^ (2 * j)" "0 \<le> q"
    using square_finite[OF assms(2,3)] by blast
  have "(2::real) ^ (2 * j + 1) = 2 ^ (2 * j) + 2 ^ (2 * j)"
    by (simp only: power_add power_one_right mult_2_right)
  then have "\<bar>p + q\<bar> \<le> 2 ^ (2 * j + 1)" using p(2) q(2) by linarith
  moreover have "2 * j + 1 \<le> 1023" using assms(3) by linarith
  ultimately have "\<exists>s. to_double (p + q) = Finite s \<and> \<bar>s\<bar> \<le> 2 ^ (2 * j + 1) \<and> (0 \<le> p + q \<longrightarrow> 0 \<le> s)"
    by (rule to_double_finite)
  then obtain s where s: "to_double (p + q) = Finite s" "\<bar>s\<bar> \<le> 2 ^ (2 * j + 1)" "0 \<le> p + q \<longrightarrow> 0 \<le> s"
    by blast
  have nonneg: "0 \<le> s" using s(3) p(3) q(3) by simp
  have low: "s \<noteq> 0 \<longrightarrow> 2 powi (- 1074) \<le> s"
  proof
    assume "s \<noteq> 0"
    then have "2 powi (- 1074) \<le> \<bar>s\<bar>" by (rule to_double_nonzero[OF s(1)])
    then show "2 powi (- 1074) \<le> s" using nonneg by linarith
  qed
  have "js_add (js_mul (Finite x) (Finite x)) (js_mul (Finite y) (Finite y)) = Finite s"
    by (simp only: js_mul.simps p(1) q(1) js_add.simps s(1))
  moreover have "s \<le> 2 ^ (2 * j + 1)" using s(2) by linarith
  ultimately show ?thesis using nonneg low by blast
qed

lemma sqrt_finite:
  assumes "0 \<le> s" and "s \<le> 2 ^ (2 * j + 1)" and "s \<noteq> 0 \<longrightarrow> 2 powi (- 1074) \<le> s" and "j \<le> 30"
  shows "\<exists>L. js_sqrt (Finite s) = Finite L \<and> 0 \<le> L \<and> L \<le> 2 ^ (j + 1)
           \<and> (L \<noteq> 0 \<longrightarrow> 2 powi (- 537) \<le> L)"
proof -
  have "s \<le> (2 ^ (j + 1))\<^sup>2"
  proof -
    have "(2::real) ^ (2 * j + 1) \<le> 2 ^ (2 * (j + 1))" by (rule power_increasing) simp_all
    also have "\<dots> = (2 ^ (j + 1))\<^sup>2" by (simp only: power_mult [symmetric] mult.commute)
    finally show ?thesis using assms(2) by linarith
  qed
  then have upper: "sqrt s \<le> 2 ^ (j + 1)" by (intro real_le_lsqrt) simp_all
  have root: "0 \<le> sqrt s" using assms(1) by simp
  then have "\<bar>sqrt s\<bar> \<le> 2 ^ (j + 1)" using upper by linarith
  moreover have "j + 1 \<le> 1023" using assms(4) by linarith
  ultimately have "\<exists>L. to_double (sqrt s) = Finite L \<and> \<bar>L\<bar> \<le> 2 ^ (j + 1) \<and> (0 \<le> sqrt s \<longrightarrow> 0 \<le> L)"
    by (rule to_double_finite)
  then obtain L where L: "to_double (sqrt s) = Finite L" "\<bar>L\<bar> \<le> 2 ^ (j + 1)" "0 \<le> L"
    using root by blast
  have low: "L \<noteq> 0 \<longrightarrow> 2 powi (- 537) \<le> L"
  proof
    assume "L \<noteq> 0"
    have "s \<noteq> 0"
    proof
      assume "s = 0"
      then have "to_double (sqrt s) = Finite 0" by simp
      then show False using L(1) \<open>L \<noteq> 0\<close> by simp
    qed
    then have low: "2 powi (- 1074) \<le> s" using assms(3) by blast
    have e: "(- 537 + - 537 :: int) = - 1074" by simp
    have "(2::real) powi (- 537) * 2 powi (- 537) = 2 powi (- 537 + - 537)"
      by (simp only: two_powi_add)
    then have "(2::real) powi (- 537) * 2 powi (- 537) = 2 powi (- 1074)" by (simp only: e)
    then have "((2::real) powi (- 537))\<^sup>2 \<le> s" using low by (simp only: power2_eq_square)
    then have "2 powi (- 537) \<le> sqrt s" by (rule real_le_rsqrt)
    then have "to_double (sqrt s) = PosInfinity \<or> (\<exists>y. to_double (sqrt s) = Finite y \<and> 2 powi (- 537) \<le> y)"
      by (rule to_double_lower) simp
    then show "2 powi (- 537) \<le> L" by (simp only: L(1) number.simps number.inject simp_thms)
  qed
  have "js_sqrt (Finite s) = Finite L" using assms(1) L(1) by simp
  moreover have "L \<le> 2 ^ (j + 1)" using L(2) by linarith
  ultimately show ?thesis using L(3) low by blast
qed

lemma path_length_finite:
  assumes "\<bar>a\<bar> \<le> 2 ^ k" and "\<bar>b\<bar> \<le> 2 ^ k" and "\<bar>c\<bar> \<le> 2 ^ k" and "\<bar>d\<bar> \<le> 2 ^ k" and "k \<le> 29"
  shows "\<exists>L. path_length (Finite a) (Finite b) (Finite c) (Finite d) = Finite L \<and> 0 \<le> L
           \<and> L \<le> 2 ^ (k + 2) \<and> (L \<noteq> 0 \<longrightarrow> 2 powi (- 537) \<le> L)"
    and "below (k + 1) (js_sub (Finite c) (Finite a))"
    and "below (k + 1) (js_sub (Finite d) (Finite b))"
proof -
  have lt: "k < 1023" using assms(5) by linarith
  have dx: "below (Suc k) (js_sub (Finite c) (Finite a))"
    using assms(1,3) lt by (intro below_sub) (simp_all only: below_Finite)
  have dy: "below (Suc k) (js_sub (Finite d) (Finite b))"
    using assms(2,4) lt by (intro below_sub) (simp_all only: below_Finite)
  show "below (k + 1) (js_sub (Finite c) (Finite a))" using dx by (simp only: Suc_eq_plus1)
  show "below (k + 1) (js_sub (Finite d) (Finite b))" using dy by (simp only: Suc_eq_plus1)
  obtain x where x: "js_sub (Finite c) (Finite a) = Finite x" "\<bar>x\<bar> \<le> 2 ^ Suc k"
    using dx unfolding below_def by blast
  obtain y where y: "js_sub (Finite d) (Finite b) = Finite y" "\<bar>y\<bar> \<le> 2 ^ Suc k"
    using dy unfolding below_def by blast
  have j: "Suc k \<le> 30" using assms(5) by linarith
  obtain s where s: "js_add (js_mul (Finite x) (Finite x)) (js_mul (Finite y) (Finite y)) = Finite s"
      "0 \<le> s" "s \<le> 2 ^ (2 * Suc k + 1)" "s \<noteq> 0 \<longrightarrow> 2 powi (- 1074) \<le> s"
    using square_sum_finite[OF x(2) y(2) j] by blast
  obtain L where L: "js_sqrt (Finite s) = Finite L" "0 \<le> L" "L \<le> 2 ^ (Suc k + 1)"
      "L \<noteq> 0 \<longrightarrow> 2 powi (- 537) \<le> L"
    using sqrt_finite[OF s(2,3,4) j] by blast
  have "path_length (Finite a) (Finite b) (Finite c) (Finite d) = Finite L"
    by (simp only: path_length_def Let_def x(1) y(1) s(1) L(1))
  moreover have "Suc k + 1 = k + 2" by simp
  then have "L \<le> 2 ^ (k + 2)" using L(3) by (simp only:)
  ultimately show "\<exists>L. path_length (Finite a) (Finite b) (Finite c) (Finite d) = Finite L \<and> 0 \<le> L
           \<and> L \<le> 2 ^ (k + 2) \<and> (L \<noteq> 0 \<longrightarrow> 2 powi (- 537) \<le> L)"
    using L(2,4) by blast
qed

lemma offset_below:
  assumes "\<bar>W\<bar> \<le> 2 ^ 29" and "j \<le> nat \<lceil>W\<rceil>"
  shows "below 30 (js_sub (Finite (of_nat j)) (js_floor (js_div (Finite W) (Finite 2))))"
proof -
  have "(2::real) powi (- int 0) \<le> \<bar>2\<bar>" by simp
  moreover have "below 29 (Finite W)" using assms(1) by (simp only: below_Finite)
  ultimately have "below (29 + 0) (js_div (Finite W) (Finite 2))" by (intro below_div) simp_all
  then have half: "below 29 (js_floor (js_div (Finite W) (Finite 2)))" by (simp only: add_0_right below_floor)
  have "W \<le> 2 ^ 29" using assms(1) by linarith
  then have "nat \<lceil>W\<rceil> \<le> 2 ^ 29" by (rule ceiling_count)
  then have "j \<le> 2 ^ 29" using assms(2) by linarith
  then have "real j \<le> real (2 ^ 29)" by (simp only: of_nat_le_iff)
  then have "\<bar>real j\<bar> \<le> 2 ^ 29" by simp
  then have "below 29 (Finite (of_nat j))" by (simp only: below_Finite)
  then have "below (Suc 29) (js_sub (Finite (of_nat j)) (js_floor (js_div (Finite W) (Finite 2))))"
    using half by (intro below_sub) simp_all
  then show ?thesis by simp
qed

lemma final_integer:
  assumes "below 632 center" and "below 600 perp" and "below 30 offset"
  shows "\<exists>n. js_round (js_add center (js_mul perp offset)) = Finite (of_int n)"
proof -
  have "below (600 + 30) (js_mul perp offset)" using assms(2,3) by (intro below_mul) simp_all
  then have "below 632 (js_mul perp offset)" by (rule below_mono) simp
  then have "below (Suc 632) (js_add center (js_mul perp offset))"
    using assms(1) by (intro below_add) simp_all
  then show ?thesis by (rule js_round_below)
qed

lemma path_row_returns:
  assumes "below 632 centerX" and "below 632 centerY" and "below 600 perpX" and "below 600 perpY"
    and "\<bar>W\<bar> \<le> 2 ^ 29" and "j \<le> nat \<lceil>W\<rceil>"
    and "length coordinates + (nat \<lceil>W\<rceil> - j) \<le> 4294967295"
  shows "\<exists>ps. path_row centerX centerY perpX perpY (Finite W) (Finite (of_nat j)) coordinates =
           Some (Inr (coordinates @ ps))
         \<and> length ps = nat \<lceil>W\<rceil> - j \<and> (\<forall>p \<in> set ps. integer_point p)"
  using assms(6,7)
proof (induction "nat \<lceil>W\<rceil> - j" arbitrary: j coordinates)
  case 0
  then have "nat \<lceil>W\<rceil> \<le> j" by simp
  then have "\<not> js_lt (Finite (of_nat j)) (Finite W)" using counter_done[of W j] by simp
  then have "path_row centerX centerY perpX perpY (Finite W) (Finite (of_nat j)) coordinates =
      Some (Inr (coordinates @ []))"
    by (subst path_row.simps) simp
  then show ?case using 0(1) by (intro exI[of _ "[]"]) simp
next
  case (Suc n)
  let ?offset = "js_sub (Finite (of_nat j)) (js_floor (js_div (Finite W) (Finite 2)))"
  have less: "j < nat \<lceil>W\<rceil>" using Suc.hyps(2) by linarith
  then have lt: "js_lt (Finite (of_nat j)) (Finite W)" using counter_less[of j W] by simp
  have offset: "below 30 ?offset" using assms(5) Suc.prems(1) by (rule offset_below)
  obtain mx where mx: "js_round (js_add centerX (js_mul perpX ?offset)) = Finite (of_int mx)"
    using final_integer[OF assms(1,3) offset] by blast
  obtain my where my: "js_round (js_add centerY (js_mul perpY ?offset)) = Finite (of_int my)"
    using final_integer[OF assms(2,4) offset] by blast
  let ?p = "\<lparr>point_x = Finite (of_int mx), point_y = Finite (of_int my)\<rparr>"
  have room: "length coordinates < 4294967295" using Suc.prems(2) less by linarith
  have "W \<le> 2 ^ 29" using assms(5) by linarith
  then have "nat \<lceil>W\<rceil> \<le> 2 ^ 29" by (rule ceiling_count)
  then have "j < 2 ^ 53" using less by (simp; linarith)
  then have next_w: "js_add (Finite (of_nat j)) (Finite 1) = Finite (of_nat (Suc j))"
    by (rule counter_increment)
  have step: "path_row centerX centerY perpX perpY (Finite W) (Finite (of_nat j)) coordinates =
      path_row centerX centerY perpX perpY (Finite W) (Finite (of_nat (Suc j))) (coordinates @ [?p])"
    by (subst path_row.simps[of _ _ _ _ _ "Finite (of_nat j)"])
      (simp only: lt if_True Let_def mx my push_room[OF room] sum.case next_w)
  have "\<exists>ps. path_row centerX centerY perpX perpY (Finite W) (Finite (of_nat (Suc j))) (coordinates @ [?p]) =
           Some (Inr ((coordinates @ [?p]) @ ps))
         \<and> length ps = nat \<lceil>W\<rceil> - Suc j \<and> (\<forall>p \<in> set ps. integer_point p)"
  proof (rule Suc.hyps(1))
    show "n = nat \<lceil>W\<rceil> - Suc j" using Suc.hyps(2) by linarith
    show "Suc j \<le> nat \<lceil>W\<rceil>" using less by linarith
    show "length (coordinates @ [?p]) + (nat \<lceil>W\<rceil> - Suc j) \<le> 4294967295"
      using Suc.prems(2) less by simp
  qed
  then obtain ps where ps: "path_row centerX centerY perpX perpY (Finite W) (Finite (of_nat (Suc j)))
        (coordinates @ [?p]) = Some (Inr ((coordinates @ [?p]) @ ps))"
      "length ps = nat \<lceil>W\<rceil> - Suc j" "\<forall>p \<in> set ps. integer_point p"
    by blast
  have "integer_point ?p" unfolding integer_point_def by blast
  then have "\<forall>p \<in> set (?p # ps). integer_point p" using ps(3) by simp
  moreover have "length (?p # ps) = nat \<lceil>W\<rceil> - j" using ps(2) less by simp
  moreover have "path_row centerX centerY perpX perpY (Finite W) (Finite (of_nat j)) coordinates =
      Some (Inr (coordinates @ ?p # ps))"
    using step ps(1) by simp
  ultimately show ?case by blast
qed

lemma center_below:
  assumes "below 29 start" and "below 600 dir" and "below 31 L"
    and "2 \<le> N" and "N \<le> 2 ^ 53" and "i < N"
  shows "below 632 (js_add start
           (js_mul (js_mul dir L) (js_div (Finite (of_nat i)) (js_sub (Finite (of_nat N)) (Finite 1)))))"
proof -
  have steps: "js_sub (Finite (of_nat N)) (Finite 1) = Finite (of_nat (N - 1))"
    using assms(4,5) by (intro counter_decrement) linarith+
  have pos: "0 < real (N - 1)" using assms(4) by simp
  have "real i \<le> real (N - 1)" using assms(6) by simp
  then have "\<bar>real i / real (N - 1)\<bar> \<le> 2 ^ 0" using pos by simp
  then have "below 0 (to_double (real i / real (N - 1)))" by (rule below_rounding) simp
  then have t: "below 0 (js_div (Finite (of_nat i)) (js_sub (Finite (of_nat N)) (Finite 1)))"
    using pos by (simp only: steps js_div.simps) simp
  have "below (600 + 31) (js_mul dir L)" using assms(2,3) by (rule below_mul) simp
  then have "below (600 + 31 + 0)
      (js_mul (js_mul dir L) (js_div (Finite (of_nat i)) (js_sub (Finite (of_nat N)) (Finite 1))))"
    using t by (rule below_mul) simp
  then have "below 631
      (js_mul (js_mul dir L) (js_div (Finite (of_nat i)) (js_sub (Finite (of_nat N)) (Finite 1))))"
    by simp
  moreover have "below 631 start" using assms(1) by (rule below_mono) simp
  ultimately have "below (Suc 631) (js_add start
      (js_mul (js_mul dir L) (js_div (Finite (of_nat i)) (js_sub (Finite (of_nat N)) (Finite 1)))))"
    by (intro below_add) simp_all
  then show ?thesis by simp
qed

lemma path_loop_returns:
  assumes "below 29 startX" and "below 29 startY" and "below 600 dirX" and "below 600 dirY"
    and "below 600 perpX" and "below 600 perpY" and "below 31 L"
    and "2 \<le> N" and "N \<le> 2 ^ 53" and "\<bar>W\<bar> \<le> 2 ^ 29"
    and "i \<le> N" and "length coordinates + (N - i) * nat \<lceil>W\<rceil> \<le> 4294967295"
  shows "\<exists>ps. path_loop startX startY dirX dirY perpX perpY L (Finite (of_nat N)) (Finite W)
             (Finite (of_nat i)) coordinates = Some (Inr (coordinates @ ps))
         \<and> length ps = (N - i) * nat \<lceil>W\<rceil> \<and> (\<forall>p \<in> set ps. integer_point p)"
  using assms(11,12)
proof (induction "N - i" arbitrary: i coordinates)
  case 0
  then have "\<not> js_lt (Finite (of_nat i)) (Finite (of_nat N))" by simp
  then have "path_loop startX startY dirX dirY perpX perpY L (Finite (of_nat N)) (Finite W)
      (Finite (of_nat i)) coordinates = Some (Inr (coordinates @ []))"
    by (subst path_loop.simps) simp
  then show ?case using 0(1) by (intro exI[of _ "[]"]) simp
next
  case (Suc n)
  let ?t = "js_div (Finite (of_nat i)) (js_sub (Finite (of_nat N)) (Finite 1))"
  let ?centerX = "js_add startX (js_mul (js_mul dirX L) ?t)"
  let ?centerY = "js_add startY (js_mul (js_mul dirY L) ?t)"
  have less: "i < N" using Suc.hyps(2) by linarith
  then have lt: "js_lt (Finite (of_nat i)) (Finite (of_nat N))" by simp
  have centerX: "below 632 ?centerX" using assms(1,3,7,8,9) less by (rule center_below)
  have centerY: "below 632 ?centerY" using assms(2,4,7,8,9) less by (rule center_below)
  have "1 \<le> N - i" using less by linarith
  then have "1 * nat \<lceil>W\<rceil> \<le> (N - i) * nat \<lceil>W\<rceil>" by (rule mult_le_mono1)
  then have "length coordinates + nat \<lceil>W\<rceil> \<le> 4294967295" using Suc.prems(2) by linarith
  then have "length coordinates + (nat \<lceil>W\<rceil> - 0) \<le> 4294967295" by (simp only: diff_zero)
  then have "\<exists>ps. path_row ?centerX ?centerY perpX perpY (Finite W) (Finite (of_nat 0)) coordinates =
           Some (Inr (coordinates @ ps))
         \<and> length ps = nat \<lceil>W\<rceil> - 0 \<and> (\<forall>p \<in> set ps. integer_point p)"
    using centerX centerY assms(5,6,10) by (intro path_row_returns) simp_all
  then obtain row where row: "path_row ?centerX ?centerY perpX perpY (Finite W) (Finite 0) coordinates =
        Some (Inr (coordinates @ row))"
      "length row = nat \<lceil>W\<rceil>" "\<forall>p \<in> set row. integer_point p"
    by auto
  have "i < 2 ^ 53" using less assms(9) by linarith
  then have next_i: "js_add (Finite (of_nat i)) (Finite 1) = Finite (of_nat (Suc i))"
    by (rule counter_increment)
  have step: "path_loop startX startY dirX dirY perpX perpY L (Finite (of_nat N)) (Finite W)
        (Finite (of_nat i)) coordinates =
      path_loop startX startY dirX dirY perpX perpY L (Finite (of_nat N)) (Finite W)
        (Finite (of_nat (Suc i))) (coordinates @ row)"
    by (subst path_loop.simps[of _ _ _ _ _ _ _ _ _ "Finite (of_nat i)"])
      (simp only: lt if_True Let_def row(1) option.case sum.case next_i)
  have count: "(N - i) * nat \<lceil>W\<rceil> = nat \<lceil>W\<rceil> + (N - Suc i) * nat \<lceil>W\<rceil>"
  proof -
    have "N - i = Suc (N - Suc i)" using less by linarith
    then show ?thesis by simp
  qed
  have "\<exists>ps. path_loop startX startY dirX dirY perpX perpY L (Finite (of_nat N)) (Finite W)
             (Finite (of_nat (Suc i))) (coordinates @ row) = Some (Inr ((coordinates @ row) @ ps))
         \<and> length ps = (N - Suc i) * nat \<lceil>W\<rceil> \<and> (\<forall>p \<in> set ps. integer_point p)"
  proof (rule Suc.hyps(1))
    show "n = N - Suc i" using Suc.hyps(2) by linarith
    show "Suc i \<le> N" using less by linarith
    show "length (coordinates @ row) + (N - Suc i) * nat \<lceil>W\<rceil> \<le> 4294967295"
      using Suc.prems(2) row(2) count by simp
  qed
  then obtain ps where ps: "path_loop startX startY dirX dirY perpX perpY L (Finite (of_nat N)) (Finite W)
        (Finite (of_nat (Suc i))) (coordinates @ row) = Some (Inr ((coordinates @ row) @ ps))"
      "length ps = (N - Suc i) * nat \<lceil>W\<rceil>" "\<forall>p \<in> set ps. integer_point p"
    by blast
  have "\<forall>p \<in> set (row @ ps). integer_point p" using row(3) ps(3) by auto
  moreover have "length (row @ ps) = (N - i) * nat \<lceil>W\<rceil>" using row(2) ps(2) count by simp
  moreover have "path_loop startX startY dirX dirY perpX perpY L (Finite (of_nat N)) (Finite W)
      (Finite (of_nat i)) coordinates = Some (Inr (coordinates @ row @ ps))"
    using step ps(1) by simp
  ultimately show ?case by blast
qed

lemma steps_count:
  assumes "0 < L" and "L \<le> 2 ^ j" and "j \<le> 31"
  shows "js_add (js_ceil (Finite L)) (Finite 1) = Finite (of_nat (Suc (nat \<lceil>L\<rceil>)))"
    and "2 \<le> Suc (nat \<lceil>L\<rceil>)" and "Suc (nat \<lceil>L\<rceil>) \<le> 2 ^ j + 1"
proof -
  have count: "nat \<lceil>L\<rceil> \<le> 2 ^ j" using assms(2) by (rule ceiling_count)
  have "(2::nat) ^ j \<le> 2 ^ 31" using assms(3) by (intro power_increasing) simp_all
  also have "\<dots> < (2::nat) ^ 53" by simp
  finally have "nat \<lceil>L\<rceil> < 2 ^ 53" using count by linarith
  then have "js_add (Finite (of_nat (nat \<lceil>L\<rceil>))) (Finite 1) = Finite (of_nat (Suc (nat \<lceil>L\<rceil>)))"
    by (rule counter_increment)
  moreover have "0 < \<lceil>L\<rceil>" using assms(1) by simp
  then have "real (nat \<lceil>L\<rceil>) = of_int \<lceil>L\<rceil>" by simp
  ultimately show "js_add (js_ceil (Finite L)) (Finite 1) = Finite (of_nat (Suc (nat \<lceil>L\<rceil>)))"
    by (simp only: js_ceil.simps)
  show "2 \<le> Suc (nat \<lceil>L\<rceil>)" using \<open>0 < \<lceil>L\<rceil>\<close> by linarith
  show "Suc (nat \<lceil>L\<rceil>) \<le> 2 ^ j + 1" using count by linarith
qed

lemma points_count:
  assumes "N \<le> 2 ^ (k + 2) + 1" and "M \<le> 2 ^ m" and "k + m \<le> 29"
  shows "N * M \<le> (4294967295::nat)"
proof -
  have "N * M \<le> (2 ^ (k + 2) + 1) * 2 ^ m" using assms(1,2) by (rule mult_le_mono)
  also have "\<dots> = 2 ^ (k + m + 2) + 2 ^ m" by (simp add: power_add algebra_simps)
  also have "\<dots> \<le> 2 ^ 31 + 2 ^ 29"
  proof (rule add_mono)
    show "(2::nat) ^ (k + m + 2) \<le> 2 ^ 31" using assms(3) by (intro power_increasing) simp_all
    show "(2::nat) ^ m \<le> 2 ^ 29" using assms(3) by (intro power_increasing) simp_all
  qed
  also have "\<dots> \<le> (4294967295::nat)" by simp
  finally show ?thesis .
qed

lemma generated_returns:
  assumes "\<bar>a\<bar> \<le> 2 ^ k" and "\<bar>b\<bar> \<le> 2 ^ k" and "\<bar>c\<bar> \<le> 2 ^ k" and "\<bar>d\<bar> \<le> 2 ^ k"
    and "1 \<le> W" and "W \<le> 2 ^ m" and "k + m \<le> 29"
    and "path_length (Finite a) (Finite b) (Finite c) (Finite d) \<noteq> Finite 0"
  shows "\<exists>coordinates. generated (Finite a) (Finite b) (Finite c) (Finite d) (Finite W) =
           Some (Inr coordinates)
         \<and> coordinates \<noteq> [] \<and> (\<forall>p \<in> set coordinates. integer_point p)"
proof -
  have k: "k \<le> 29" and m: "m \<le> 29" using assms(7) by linarith+
  obtain L where L: "path_length (Finite a) (Finite b) (Finite c) (Finite d) = Finite L" "0 \<le> L"
      "L \<le> 2 ^ (k + 2)" "L \<noteq> 0 \<longrightarrow> 2 powi (- 537) \<le> L"
    using path_length_finite(1)[OF assms(1-4) k] by blast
  have nz: "L \<noteq> 0" using assms(8) L(1) by simp
  then have pos: "0 < L" using L(2) by linarith
  have "2 powi (- 537) \<le> L" using L(4) nz by blast
  then have "2 powi (- 537) \<le> \<bar>L\<bar>" using pos by linarith
  then have low: "2 powi (- int 537) \<le> \<bar>L\<bar>" by (simp only: of_nat_numeral)
  have "below 31 (Finite L)"
  proof -
    have "(2::real) ^ (k + 2) \<le> 2 ^ 31" using k by (intro power_increasing) simp_all
    then have "\<bar>L\<bar> \<le> 2 ^ 31" using L(2,3) by linarith
    then show ?thesis by (simp only: below_Finite)
  qed
  note length = this
  have dx: "below 30 (js_sub (Finite c) (Finite a))"
    using path_length_finite(2)[OF assms(1-4) k] by (rule below_mono) (use k in linarith)
  have dy: "below 30 (js_sub (Finite d) (Finite b))"
    using path_length_finite(3)[OF assms(1-4) k] by (rule below_mono) (use k in linarith)
  have "below (30 + 537) (js_div (js_sub (Finite c) (Finite a)) (Finite L))"
    using dx low by (rule below_div) simp
  then have dirX: "below 600 (js_div (js_sub (Finite c) (Finite a)) (Finite L))"
    by (rule below_mono) simp
  have "below (30 + 537) (js_div (js_sub (Finite d) (Finite b)) (Finite L))"
    using dy low by (rule below_div) simp
  then have dirY: "below 600 (js_div (js_sub (Finite d) (Finite b)) (Finite L))"
    by (rule below_mono) simp
  have perpX: "below 600 (js_neg (js_div (js_sub (Finite d) (Finite b)) (Finite L)))"
    using dirY by (rule below_neg)
  have j: "k + 2 \<le> 31" using k by linarith
  note steps = steps_count[OF pos L(3) j]
  have start: "below 29 (Finite a)" "below 29 (Finite b)"
  proof -
    have "(2::real) ^ k \<le> 2 ^ 29" using k by (intro power_increasing) simp_all
    then have "\<bar>a\<bar> \<le> 2 ^ 29" "\<bar>b\<bar> \<le> 2 ^ 29" using assms(1,2) by linarith+
    then show "below 29 (Finite a)" "below 29 (Finite b)" by (simp_all only: below_Finite)
  qed
  have W: "\<bar>W\<bar> \<le> 2 ^ 29"
  proof -
    have "(2::real) ^ m \<le> 2 ^ 29" using m by (intro power_increasing) simp_all
    then show ?thesis using assms(5,6) by linarith
  qed
  have M: "nat \<lceil>W\<rceil> \<le> 2 ^ m" using assms(6) by (rule ceiling_count)
  have "0 < \<lceil>W\<rceil>" using assms(5) by simp
  then have M1: "1 \<le> nat \<lceil>W\<rceil>" by linarith
  have N53: "Suc (nat \<lceil>L\<rceil>) \<le> 2 ^ 53"
  proof -
    have "(2::nat) ^ (k + 2) \<le> 2 ^ 31" using k by (intro power_increasing) simp_all
    also have "\<dots> + 1 \<le> (2::nat) ^ 53" by simp
    finally show ?thesis using steps(3) by linarith
  qed
  have "Suc (nat \<lceil>L\<rceil>) * nat \<lceil>W\<rceil> \<le> 4294967295"
    using steps(3) M assms(7) by (rule points_count)
  then have room: "length ([]::Point list) + (Suc (nat \<lceil>L\<rceil>) - 0) * nat \<lceil>W\<rceil> \<le> 4294967295"
    by (simp only: list.size add_0 diff_zero)
  have "\<exists>ps. path_loop (Finite a) (Finite b)
          (js_div (js_sub (Finite c) (Finite a)) (Finite L))
          (js_div (js_sub (Finite d) (Finite b)) (Finite L))
          (js_neg (js_div (js_sub (Finite d) (Finite b)) (Finite L)))
          (js_div (js_sub (Finite c) (Finite a)) (Finite L))
          (Finite L) (Finite (of_nat (Suc (nat \<lceil>L\<rceil>)))) (Finite W) (Finite (of_nat 0)) [] =
        Some (Inr ([] @ ps))
      \<and> length ps = (Suc (nat \<lceil>L\<rceil>) - 0) * nat \<lceil>W\<rceil> \<and> (\<forall>p \<in> set ps. integer_point p)"
    using start dirX dirY perpX dirX length steps(2) N53 W _ room
    by (rule path_loop_returns) simp
  then obtain ps where ps: "path_loop (Finite a) (Finite b)
          (js_div (js_sub (Finite c) (Finite a)) (Finite L))
          (js_div (js_sub (Finite d) (Finite b)) (Finite L))
          (js_neg (js_div (js_sub (Finite d) (Finite b)) (Finite L)))
          (js_div (js_sub (Finite c) (Finite a)) (Finite L))
          (Finite L) (Finite (of_nat (Suc (nat \<lceil>L\<rceil>)))) (Finite W) (Finite 0) [] = Some (Inr ps)"
      "length ps = Suc (nat \<lceil>L\<rceil>) * nat \<lceil>W\<rceil>" "\<forall>p \<in> set ps. integer_point p"
    by auto
  have "generated (Finite a) (Finite b) (Finite c) (Finite d) (Finite W) = Some (Inr ps)"
    by (simp only: generated_def Let_def L(1) steps(1) ps(1))
  moreover have "1 * 1 \<le> Suc (nat \<lceil>L\<rceil>) * nat \<lceil>W\<rceil>" using M1 by (intro mult_le_mono) linarith+
  then have "0 < length ps" unfolding ps(2) by linarith
  then have "ps \<noteq> []" by simp
  ultimately show ?thesis using ps(3) by blast
qed

lemma getPathCoordinates_degenerate:
  "getPathCoordinates (Finite a) (Finite b) (Finite a) (Finite b) width =
     Some (Inr [\<lparr>point_x = Finite (of_int \<lfloor>a + 1 / 2\<rfloor>), point_y = Finite (of_int \<lfloor>b + 1 / 2\<rfloor>)\<rparr>])"
  by (simp add: getPathCoordinates_def js_sub_def Let_def)

lemma path_row_once:
  "path_row centerX centerY perpX perpY (Finite 1) (Finite 0) coordinates =
     (case push coordinates
         \<lparr>point_x = js_round (js_add centerX (js_mul perpX (Finite 0))),
          point_y = js_round (js_add centerY (js_mul perpY (Finite 0)))\<rparr> of
        Inl e \<Rightarrow> Some (Inl e)
      | Inr coordinates' \<Rightarrow> Some (Inr coordinates'))"
proof -
  have finished: "path_row centerX centerY perpX perpY (Finite 1) (Finite 1) arr = Some (Inr arr)" for arr
    by (subst path_row.simps) simp
  show ?thesis
    by (subst path_row.simps) (simp add: js_sub_def to_double_half finished split: sum.split)
qed

lemma path_loop_finished:
  "\<not> js_lt i steps \<Longrightarrow>
   path_loop startX startY dirX dirY perpX perpY length' steps width i coordinates = Some (Inr coordinates)"
  by (subst path_loop.simps) simp

lemma path_loop_fills:
  assumes "\<And>k. k \<le> 4294967295 \<Longrightarrow> js_lt (Finite (of_nat k)) steps"
    and "i \<le> length coordinates" and "length coordinates \<le> 4294967295"
  shows "path_loop startX startY dirX dirY perpX perpY length' steps (Finite 1)
           (Finite (of_nat i)) coordinates = Some (Inl RangeError)"
  using assms(2,3)
proof (induction "4294967295 - length coordinates" arbitrary: i coordinates)
  case 0
  then have full: "4294967295 \<le> length coordinates" by simp
  have lt: "js_lt (Finite (of_nat i)) steps" using 0(2,3) by (intro assms(1)) linarith
  show ?case
    by (subst path_loop.simps[of _ _ _ _ _ _ _ _ _ "Finite (of_nat i)"])
      (simp only: lt if_True Let_def path_row_once push_full[OF full] sum.case option.case)
next
  case (Suc n)
  then have room: "length coordinates < 4294967295" by simp
  have lt: "js_lt (Finite (of_nat i)) steps" using Suc.prems by (intro assms(1)) linarith
  let ?t = "js_div (Finite (of_nat i)) (js_sub steps (Finite 1))"
  let ?p = "\<lparr>point_x = js_round (js_add (js_add startX (js_mul (js_mul dirX length') ?t))
                (js_mul perpX (Finite 0))),
             point_y = js_round (js_add (js_add startY (js_mul (js_mul dirY length') ?t))
                (js_mul perpY (Finite 0)))\<rparr>"
  have "i < 2 ^ 53" using Suc.prems(1) room by simp
  then have next_i: "js_add (Finite (of_nat i)) (Finite 1) = Finite (of_nat (Suc i))"
    by (rule counter_increment)
  have step: "path_loop startX startY dirX dirY perpX perpY length' steps (Finite 1)
        (Finite (of_nat i)) coordinates =
      path_loop startX startY dirX dirY perpX perpY length' steps (Finite 1)
        (Finite (of_nat (Suc i))) (coordinates @ [?p])"
    by (subst path_loop.simps[of _ _ _ _ _ _ _ _ _ "Finite (of_nat i)"])
      (simp only: lt if_True Let_def path_row_once push_room[OF room] sum.case option.case next_i)
  have "path_loop startX startY dirX dirY perpX perpY length' steps (Finite 1)
        (Finite (of_nat (Suc i))) (coordinates @ [?p]) = Some (Inl RangeError)"
  proof (rule Suc.hyps(1))
    show "n = 4294967295 - length (coordinates @ [?p])" using Suc.hyps(2) by simp
    show "Suc i \<le> length (coordinates @ [?p])" using Suc.prems(1) by simp
    show "length (coordinates @ [?p]) \<le> 4294967295" using room by simp
  qed
  then show ?case by (simp only: step)
qed

lemma getPathCoordinates_full:
  "getPathCoordinates (Finite 0) (Finite 0) (Finite (2 ^ 600)) (Finite 0) None = Some (Inl RangeError)"
proof -
  define x :: real where "x = 2 ^ 600"
  have "to_double (2 powi 600) = Finite (2 powi 600)" by (rule to_double_power) simp_all
  then have dx: "to_double x = Finite x" by (simp only: x_def power_int_numeral)
  have "(2::real) ^ 1024 \<le> 2 ^ 1200" by (rule power_increasing) simp_all
  also have "\<dots> = x * x" by (simp only: x_def power_add [symmetric]) simp
  finally have square: "to_double (x * x) = PosInfinity" by (rule to_double_overflow)
  have loop: "path_loop (Finite 0) (Finite 0) dirX dirY perpX perpY PosInfinity PosInfinity (Finite 1)
      (Finite 0) [] = Some (Inl RangeError)" for dirX dirY perpX perpY
    using path_loop_fills[of PosInfinity 0 "[]"] by simp
  have "getPathCoordinates (Finite 0) (Finite 0) (Finite x) (Finite 0) None = Some (Inl RangeError)"
    by (simp add: getPathCoordinates_def default_width_def js_sub_def Let_def dx square loop)
  then show ?thesis by (simp only: x_def)
qed

lemma getPathCoordinates_long:
  "getPathCoordinates (Finite 0) (Finite 0) (Finite 4294967296) (Finite 0) None = Some (Inl RangeError)"
proof -
  have square: "to_double 18446744073709551616 = Finite 18446744073709551616"
    using to_double_power[of 64] by simp
  have "sqrt 18446744073709551616 = sqrt (4294967296\<^sup>2)" by simp
  then have root: "sqrt 18446744073709551616 = 4294967296" by (simp only: real_sqrt_abs abs_numeral)
  have loop: "path_loop (Finite 0) (Finite 0) dirX dirY perpX perpY length' (Finite 4294967297) (Finite 1)
      (Finite 0) [] = Some (Inl RangeError)" for dirX dirY perpX perpY length'
    using path_loop_fills[of "Finite 4294967297" 0 "[]"] by simp
  show ?thesis
    by (simp add: getPathCoordinates_def default_width_def js_sub_def Let_def to_double_numeral
        square root loop)
qed

lemma getPathCoordinates_infinite:
  "getPathCoordinates PosInfinity (Finite 0) PosInfinity (Finite 0) None = Some (Inr [])"
  by (simp add: getPathCoordinates_def default_width_def js_sub_def Let_def path_loop_finished
      uniqueCoords_def)

text \<open>
  The straight path from \<open>(0, 0)\<close> to \<open>(2, 0)\<close>: the length is \<open>2\<close>, there are three
  steps, and \<open>t\<close> is \<open>0\<close>, \<open>1 / 2\<close> and \<open>1\<close>.
\<close>

lemma getPathCoordinates_example:
  "getPathCoordinates (Finite 0) (Finite 0) (Finite 2) (Finite 0) None =
     Some (Inr [\<lparr>point_x = Finite 0, point_y = Finite 0\<rparr>, \<lparr>point_x = Finite 1, point_y = Finite 0\<rparr>,
                \<lparr>point_x = Finite 2, point_y = Finite 0\<rparr>])"
proof -
  have loop: "path_loop (Finite 0) (Finite 0) (Finite 1) (Finite 0) (Finite 0) (Finite 1) (Finite 2)
      (Finite 3) (Finite 1) (Finite 0) [] =
    Some (Inr [\<lparr>point_x = Finite 0, point_y = Finite 0\<rparr>, \<lparr>point_x = Finite 1, point_y = Finite 0\<rparr>,
               \<lparr>point_x = Finite 2, point_y = Finite 0\<rparr>])"
    apply (subst path_loop.simps)
    apply (simp add: js_sub_def to_double_numeral to_double_half path_row_once push_def Let_def)
    apply (subst path_loop.simps)
    apply (simp add: js_sub_def to_double_numeral to_double_half path_row_once push_def Let_def)
    apply (subst path_loop.simps)
    apply (simp add: js_sub_def to_double_numeral to_double_half path_row_once push_def Let_def)
    apply (simp add: path_loop_finished Let_def)
    done
  show ?thesis
    by (simp add: getPathCoordinates_def default_width_def js_sub_def Let_def to_double_numeral loop
        uniqueCoords_def)
qed

text \<open>
  Three calls of \<open>getPathCoordinates\<close> with the default width. The first two have
  finite, distinct endpoints and return no list. From \<open>(0, 0)\<close> to \<open>(2 ^ 600, 0)\<close> the square \<open>dx * dx\<close> is
  \<open>2 ^ 1200\<close>, which overflows: \<open>length\<close> is \<open>Infinity\<close> and so is \<open>steps\<close>. The test
  \<open>i < steps\<close> never fails, every step pushes a point, and the call ends when the array is
  full, with a \<open>RangeError\<close>. From \<open>(0, 0)\<close> to \<open>(4294967296, 0)\<close> nothing overflows,
  but the \<open>2 ^ 32 + 1\<close> steps push one point each, more than an array holds. The third
  call starts and ends at the same infinite point:
  \<open>Infinity - Infinity\<close> is \<open>NaN\<close>, so \<open>length\<close> and \<open>steps\<close> are \<open>NaN\<close>, neither
  \<open>length === 0\<close> nor \<open>0 < steps\<close> holds, and the list is empty.
\<close>

theorem getPathCoordinates_overflows:
  "getPathCoordinates (Finite 0) (Finite 0) (Finite (2 ^ 600)) (Finite 0) None = Some (Inl RangeError)
   \<and> getPathCoordinates (Finite 0) (Finite 0) (Finite 4294967296) (Finite 0) None = Some (Inl RangeError)
   \<and> getPathCoordinates PosInfinity (Finite 0) PosInfinity (Finite 0) None = Some (Inr [])"
  by (intro conjI) (rule getPathCoordinates_full getPathCoordinates_long getPathCoordinates_infinite)+

text \<open>
  C5. When start and end are the same finite point, \<open>getPathCoordinates\<close> returns the
  single point \<open>(round(startX), round(startY))\<close>. For finite endpoints of at most \<open>2 ^ k\<close>
  in absolute value and a width from \<open>1\<close> to \<open>2 ^ m\<close>, where \<open>k + m <= 29\<close>, it returns
  a list that is not empty, whose points are integer pairs, no two of them equal: the single
  rounded start point when the computed length is zero, and otherwise the points that the
  steps and offsets generate, each at its first occurrence.
\<close>

theorem getPathCoordinates_points:
  "getPathCoordinates (Finite a) (Finite b) (Finite a) (Finite b) width =
     Some (Inr [\<lparr>point_x = Finite (of_int \<lfloor>a + 1 / 2\<rfloor>), point_y = Finite (of_int \<lfloor>b + 1 / 2\<rfloor>)\<rparr>])
   \<and> (\<bar>a\<bar> \<le> 2 ^ k \<and> \<bar>b\<bar> \<le> 2 ^ k \<and> \<bar>c\<bar> \<le> 2 ^ k \<and> \<bar>d\<bar> \<le> 2 ^ k
        \<and> default_width width = Finite W \<and> 1 \<le> W \<and> W \<le> 2 ^ m \<and> k + m \<le> 29 \<longrightarrow>
      (\<exists>r. getPathCoordinates (Finite a) (Finite b) (Finite c) (Finite d) width = Some (Inr r)
         \<and> r \<noteq> [] \<and> (\<forall>p \<in> set r. integer_point p) \<and> distinct r
         \<and> (if path_length (Finite a) (Finite b) (Finite c) (Finite d) = Finite 0
            then r = [\<lparr>point_x = js_round (Finite a), point_y = js_round (Finite b)\<rparr>]
            else \<exists>coordinates.
                   generated (Finite a) (Finite b) (Finite c) (Finite d) (Finite W) = Some (Inr coordinates)
                   \<and> r = insertion_order coordinates \<and> set r = set coordinates)))"
proof (intro conjI impI)
  show "getPathCoordinates (Finite a) (Finite b) (Finite a) (Finite b) width =
     Some (Inr [\<lparr>point_x = Finite (of_int \<lfloor>a + 1 / 2\<rfloor>), point_y = Finite (of_int \<lfloor>b + 1 / 2\<rfloor>)\<rparr>])"
    by (rule getPathCoordinates_degenerate)
next
  assume bounds: "\<bar>a\<bar> \<le> 2 ^ k \<and> \<bar>b\<bar> \<le> 2 ^ k \<and> \<bar>c\<bar> \<le> 2 ^ k \<and> \<bar>d\<bar> \<le> 2 ^ k
        \<and> default_width width = Finite W \<and> 1 \<le> W \<and> W \<le> 2 ^ m \<and> k + m \<le> 29"
  let ?length = "path_length (Finite a) (Finite b) (Finite c) (Finite d)"
  let ?start = "\<lparr>point_x = js_round (Finite a), point_y = js_round (Finite b)\<rparr>"
  show "\<exists>r. getPathCoordinates (Finite a) (Finite b) (Finite c) (Finite d) width = Some (Inr r)
         \<and> r \<noteq> [] \<and> (\<forall>p \<in> set r. integer_point p) \<and> distinct r
         \<and> (if ?length = Finite 0 then r = [?start]
            else \<exists>coordinates.
                   generated (Finite a) (Finite b) (Finite c) (Finite d) (Finite W) = Some (Inr coordinates)
                   \<and> r = insertion_order coordinates \<and> set r = set coordinates)"
  proof (cases "?length = Finite 0")
    case True
    then have "getPathCoordinates (Finite a) (Finite b) (Finite c) (Finite d) width = Some (Inr [?start])"
      by (simp only: getPathCoordinates_generated js_eq_zero simp_thms if_True)
    moreover have "integer_point ?start" unfolding integer_point_def by (simp only: js_round.simps) blast
    ultimately show ?thesis using True by simp
  next
    case False
    obtain coordinates where coordinates:
        "generated (Finite a) (Finite b) (Finite c) (Finite d) (Finite W) = Some (Inr coordinates)"
        "coordinates \<noteq> []" "\<forall>p \<in> set coordinates. integer_point p"
      using generated_returns[of a k b c d W m] bounds False by blast
    note unique = uniqueCoords_first_occurrences[OF coordinates(3)]
    have "getPathCoordinates (Finite a) (Finite b) (Finite c) (Finite d) width =
        Some (Inr (uniqueCoords coordinates))"
      using False bounds
      by (simp only: getPathCoordinates_generated js_eq_zero simp_thms if_False coordinates(1) option.case sum.case)
    moreover have "uniqueCoords coordinates \<noteq> []" using unique coordinates(2) by blast
    moreover have same: "set (uniqueCoords coordinates) = set coordinates" using unique by blast
    then have "\<forall>p \<in> set (uniqueCoords coordinates). integer_point p" using coordinates(3) by (simp only:)
    moreover have "distinct (uniqueCoords coordinates)" using unique by blast
    moreover have "uniqueCoords coordinates = insertion_order coordinates" using unique by blast
    ultimately show ?thesis using False coordinates(1) same by simp
  qed
qed


theorem getPathCoordinates_points_witness:
  "\<bar>0::real\<bar> \<le> 2 ^ 2 \<and> \<bar>3::real\<bar> \<le> 2 ^ 2 \<and> \<bar>4::real\<bar> \<le> 2 ^ 2
   \<and> default_width None = Finite 1 \<and> (1::real) \<le> 2 ^ 0 \<and> (2::nat) + 0 \<le> 29
   \<and> (\<exists>r. getPathCoordinates (Finite 0) (Finite 0) (Finite 3) (Finite 4) None = Some (Inr r)
         \<and> r \<noteq> [] \<and> list_all integer_point r \<and> distinct r)"
proof -
  have bounds: "\<bar>0::real\<bar> \<le> 2 ^ 2 \<and> \<bar>0::real\<bar> \<le> 2 ^ 2 \<and> \<bar>3::real\<bar> \<le> 2 ^ 2 \<and> \<bar>4::real\<bar> \<le> 2 ^ 2
      \<and> default_width None = Finite 1 \<and> (1::real) \<le> 1 \<and> (1::real) \<le> 2 ^ 0 \<and> (2::nat) + 0 \<le> 29"
    by (simp add: default_width_def)
  have "\<exists>r. getPathCoordinates (Finite 0) (Finite 0) (Finite 3) (Finite 4) None = Some (Inr r)
         \<and> r \<noteq> [] \<and> (\<forall>p \<in> set r. integer_point p) \<and> distinct r
         \<and> (if path_length (Finite 0) (Finite 0) (Finite 3) (Finite 4) = Finite 0
            then r = [\<lparr>point_x = js_round (Finite 0), point_y = js_round (Finite 0)\<rparr>]
            else \<exists>coordinates.
                   generated (Finite 0) (Finite 0) (Finite 3) (Finite 4) (Finite 1) = Some (Inr coordinates)
                   \<and> r = insertion_order coordinates \<and> set r = set coordinates)"
    using getPathCoordinates_points[of 0 0 None 2 3 4 1 0] bounds by blast
  then have "\<exists>r. getPathCoordinates (Finite 0) (Finite 0) (Finite 3) (Finite 4) None = Some (Inr r)
         \<and> r \<noteq> [] \<and> list_all integer_point r \<and> distinct r"
    unfolding list_all_iff by blast
  then show ?thesis using bounds by blast
qed


end
